theory Spec2Isabelle
  imports
    Main
    "HOL-Library.AList"
    "HOL-Library.Product_Lexorder"
    "HOL-Library.Sublist"
    "HOL-Library.Extended_Nat"
    "HOL-Library.Multiset"
begin

section \<open>The event cache (db.js)\<close>

text \<open>
  The \<^verbatim>\<open>transfers\<close> table of \<^verbatim>\<open>db.js\<close> is a list of rows in insertion order (the
  \<^verbatim>\<open>AUTOINCREMENT\<close> id is the position). The \<^verbatim>\<open>tokenId\<close> column is \<^verbatim>\<open>TEXT\<close> and holds
  the decimal rendering of a \<^verbatim>\<open>uint256\<close> produced by \<^verbatim>\<open>args[2].toString()\<close>; the reader
  turns it back with \<^verbatim>\<open>BigInt(row.tokenId)\<close> and the reducer renders it again with
  \<^verbatim>\<open>toString()\<close>. The decimal rendering is injective, so the column (and the key of
  the holder map) is represented by the number itself.

  The same record stands for an event log handed over by the remote source:
  \<^verbatim>\<open>event.index\<close> is \<open>logIndex\<close>, \<^verbatim>\<open>event.args[0..2]\<close> are \<open>fromAddress\<close>, \<open>toAddress\<close>
  and \<open>tokenId\<close>.
\<close>

type_synonym address = string

record transfer =
  blockNumber :: int
  logIndex :: int
  transactionHash :: string
  fromAddress :: address
  toAddress :: address
  tokenId :: nat

type_synonym transfers = "transfer list"

text \<open>\<^verbatim>\<open>UNIQUE(blockNumber, logIndex, transactionHash)\<close>\<close>

definition uniqueKey :: "transfer \<Rightarrow> int \<times> int \<times> string" where
  "uniqueKey r = (blockNumber r, logIndex r, transactionHash r)"

text \<open>\<^verbatim>\<open>INSERT OR IGNORE\<close>: a row whose unique key is already present is skipped.\<close>

definition insertEvent :: "transfers \<Rightarrow> transfer \<Rightarrow> transfers" where
  "insertEvent tbl e = (if uniqueKey e \<in> set (map uniqueKey tbl) then tbl else tbl @ [e])"

fun bulkInsertEvents :: "transfers \<Rightarrow> transfer list \<Rightarrow> transfers" where
  "bulkInsertEvents tbl [] = tbl"
| "bulkInsertEvents tbl (e # es) = bulkInsertEvents (insertEvent tbl e) es"

text \<open>
  \<^verbatim>\<open>WHERE blockNumber >= ? AND blockNumber <= ? ORDER BY blockNumber ASC, logIndex ASC\<close>.
  The query orders on the pair \<open>(blockNumber, logIndex)\<close> and has no further column to
  break ties, and the unique key lets two rows agree on both columns (with different
  transaction hashes). The order of such rows is the engine's choice: SQLite, reading
  through the index of the unique key, returns them by transaction hash, another plan
  would return them in insertion order. \<open>tie\<close> is that choice, a rank the engine gives
  each row and consults only among rows that agree on both columns.

  \<open>rangeAnswer\<close> holds of every list the query may return, whatever the engine does:
  the rows of the inclusive range, ascending on the pair.
\<close>

definition orderKey :: "transfer \<Rightarrow> int \<times> int" where
  "orderKey r = (blockNumber r, logIndex r)"

definition inRange :: "int \<Rightarrow> int \<Rightarrow> transfer \<Rightarrow> bool" where
  "inRange fromBlock toBlock r \<longleftrightarrow> fromBlock \<le> blockNumber r \<and> blockNumber r \<le> toBlock"

definition getEventsByBlockRange ::
  "(transfer \<Rightarrow> nat) \<Rightarrow> transfers \<Rightarrow> int \<Rightarrow> int \<Rightarrow> transfer list" where
  "getEventsByBlockRange tie tbl fromBlock toBlock =
     sort_key (\<lambda>r. (orderKey r, tie r)) (filter (inRange fromBlock toBlock) tbl)"

definition rangeAnswer :: "transfers \<Rightarrow> int \<Rightarrow> int \<Rightarrow> transfer list \<Rightarrow> bool" where
  "rangeAnswer tbl fromBlock toBlock rows \<longleftrightarrow>
     mset rows = mset (filter (inRange fromBlock toBlock) tbl) \<and> sorted (map orderKey rows)"

text \<open>The rank that a given answer gives to its rows: the place of the row in it.\<close>

fun rankIn :: "'a list \<Rightarrow> 'a \<Rightarrow> nat" where
  "rankIn [] x = 0"
| "rankIn (y # ys) x = (if x = y then 0 else Suc (rankIn ys x))"

text \<open>
  \<^verbatim>\<open>SELECT MAX(blockNumber) as maxBlock\<close>: \<open>None\<close> is SQL \<^verbatim>\<open>NULL\<close>, the aggregate over
  an empty table.
\<close>

fun maxBlockNumber :: "transfers \<Rightarrow> int option" where
  "maxBlockNumber [] = None"
| "maxBlockNumber (r # rs) =
     (case maxBlockNumber rs of
        None \<Rightarrow> Some (blockNumber r)
      | Some m \<Rightarrow> Some (max (blockNumber r) m))"

text \<open>
  \<^verbatim>\<open>resolve(row.maxBlock || -1)\<close>: the operator \<^verbatim>\<open>||\<close> yields its right operand when
  the left one is falsy, and both \<^verbatim>\<open>null\<close> and \<^verbatim>\<open>0\<close> are falsy.
\<close>

definition falsy_or :: "int option \<Rightarrow> int \<Rightarrow> int" where
  "falsy_or v d = (case v of None \<Rightarrow> d | Some n \<Rightarrow> if n = 0 then d else n)"

definition GetHighestCachedBlock :: "transfers \<Rightarrow> int" where
  "GetHighestCachedBlock tbl = falsy_or (maxBlockNumber tbl) (- 1)"


section \<open>The ownership replay (app.js, getHolderMapByBlock)\<close>

text \<open>
  A JavaScript \<^verbatim>\<open>Map\<close> keeps its entries in insertion order: \<^verbatim>\<open>set\<close> on a present key
  replaces the value in place, \<^verbatim>\<open>set\<close> on an absent key appends, \<^verbatim>\<open>delete\<close> removes the
  entry. This is the association list with \<^const>\<open>AList.update\<close> and \<^const>\<open>AList.delete\<close>.
\<close>

type_synonym holderMap = "(nat \<times> address) list"

definition zeroAddress :: address where
  "zeroAddress = ''0x0000000000000000000000000000000000000000''"

text \<open>The body of the \<^verbatim>\<open>for\<close> loop, and the loop.\<close>

definition applyEvent :: "holderMap \<Rightarrow> transfer \<Rightarrow> holderMap" where
  "applyEvent m e =
     (let holder = toAddress e; tid = tokenId e in
      if holder = zeroAddress then AList.delete tid m else AList.update tid holder m)"

fun replay :: "holderMap \<Rightarrow> transfer list \<Rightarrow> holderMap" where
  "replay m [] = m"
| "replay m (e # es) = replay (applyEvent m e) es"

definition getHolderMapByBlock ::
  "(transfer \<Rightarrow> nat) \<Rightarrow> transfers \<Rightarrow> int \<Rightarrow> int \<Rightarrow> holderMap" where
  "getHolderMapByBlock tie tbl startBlock targetBlockNumber =
     replay [] (getEventsByBlockRange tie tbl startBlock targetBlockNumber)"

text \<open>
  The reference replay, written from the specification: events in the order of height
  and then of log index, folded from the empty ledger with the rule ``a transfer to the
  zero address removes the asset, any other transfer sets the asset's owner to the
  recipient''. \<open>spec_replay\<close> is the fold over a list of events that is in that order;
  \<open>spec_buildLedger\<close> is the ledger of a store and a range whose events the two columns
  order completely (as they do on chain, where a log index occurs once in a block).
\<close>

definition spec_reduce :: "(nat \<rightharpoonup> address) \<Rightarrow> transfer \<Rightarrow> (nat \<rightharpoonup> address)" where
  "spec_reduce m e =
     (if toAddress e = zeroAddress then m(tokenId e := None) else m(tokenId e \<mapsto> toAddress e))"

definition spec_replay :: "transfer list \<Rightarrow> (nat \<rightharpoonup> address)" where
  "spec_replay events = foldl spec_reduce Map.empty events"

definition spec_buildLedger :: "transfers \<Rightarrow> int \<Rightarrow> int \<Rightarrow> (nat \<rightharpoonup> address)" where
  "spec_buildLedger tbl fromHeight toHeight =
     spec_replay
       (sort_key (\<lambda>e. (blockNumber e, logIndex e))
          [e \<leftarrow> tbl. fromHeight \<le> blockNumber e \<and> blockNumber e \<le> toHeight])"


section \<open>The ingestion sweep (app.js, getTransactionThroughBlock)\<close>

text \<open>
  One answer of the remote source to a window query, followed by the bulk insert:
  \<open>Logs events\<close> when \<^verbatim>\<open>queryFilter\<close> resolved and the events were stored,
  \<open>Failure msg\<close> when the \<^verbatim>\<open>try\<close> block threw an error with \<^verbatim>\<open>error.message = msg\<close>.
  The answers the run receives are a list; the sweep consumes one per query. A sweep
  that has issued a query and has no answer left is still waiting for it
  (\<open>Awaiting\<close>); the loop itself has no retry limit.
\<close>

datatype response = Logs "transfer list" | Failure string

datatype 'a outcome = Finished 'a | Awaiting 'a

fun state_of :: "'a outcome \<Rightarrow> 'a" where
  "state_of (Finished s) = s"
| "state_of (Awaiting s) = s"

definition MIN_CHUNK_SIZE :: int where "MIN_CHUNK_SIZE = 100"
definition MAX_CHUNK_SIZE :: int where "MAX_CHUNK_SIZE = 150000"
definition MAX_LOGS_PER_QUERY :: nat where "MAX_LOGS_PER_QUERY = 9500"
definition MIN_LOGS_TO_INCREASE_CHUNK :: nat where "MIN_LOGS_TO_INCREASE_CHUNK = 1000"

text \<open>\<^verbatim>\<open>String.prototype.includes\<close>\<close>

definition str_includes :: "string \<Rightarrow> string \<Rightarrow> bool" where
  "str_includes s sub = sublist sub s"

text \<open>
  The \<^verbatim>\<open>if / else if / else if\<close> chain after a successful fetch of \<open>n\<close> events, in the
  order of the source. The chunk size is an integer-valued double far below \<open>2^53\<close>, and
  \<open>0.75\<close>, \<open>1.25\<close> and \<open>0.5\<close> are dyadic, so \<^verbatim>\<open>Math.floor(c * 0.75)\<close> is \<open>c * 3 div 4\<close>,
  \<^verbatim>\<open>Math.floor(c * 1.25)\<close> is \<open>c * 5 div 4\<close> and \<^verbatim>\<open>Math.floor(c * 0.5)\<close> is \<open>c div 2\<close>.
  The result is \<open>Some\<close> new size when a branch assigns (and logs
  \<^verbatim>\<open>chunk size changed to ...\<close>), \<open>None\<close> when no branch is taken.
\<close>

definition resizeAfterFetch :: "nat \<Rightarrow> int \<Rightarrow> int option" where
  "resizeAfterFetch n c =
     (if n \<ge> MAX_LOGS_PER_QUERY then Some (max MIN_CHUNK_SIZE (c * 3 div 4))
      else if n < MIN_LOGS_TO_INCREASE_CHUNK \<and> c < MAX_CHUNK_SIZE
        then Some (min MAX_CHUNK_SIZE (c * 5 div 4))
      else if n = 0 \<and> c < MAX_CHUNK_SIZE then Some (min MAX_CHUNK_SIZE (c * 2))
      else None)"

text \<open>The \<^verbatim>\<open>catch\<close> block.\<close>

definition resizeAfterError :: "string \<Rightarrow> int \<Rightarrow> int option" where
  "resizeAfterError msg c =
     (if str_includes msg ''query returned more than''
      then Some (max MIN_CHUNK_SIZE (c div 2)) else None)"

text \<open>
  The local state of the sweep. \<open>queried\<close> and \<open>chunkLog\<close> record what the function
  prints: one entry per \<^verbatim>\<open>Querying events from block a to b\<close> line and one per
  \<^verbatim>\<open>chunk size changed to c\<close> line.
\<close>

record sweep =
  currentBlock :: int
  currentChunkSize :: int
  cache :: transfers
  queried :: "(int \<times> int) list"
  chunkLog :: "int list"

definition setChunkSize :: "int option \<Rightarrow> sweep \<Rightarrow> sweep" where
  "setChunkSize r s =
     (case r of None \<Rightarrow> s
      | Some c \<Rightarrow> s\<lparr>currentChunkSize := c, chunkLog := chunkLog s @ [c]\<rparr>)"

text \<open>
  The \<^verbatim>\<open>while (currentBlock <= maxBlock)\<close> loop. \<open>highestCachedBlock\<close> is read once
  before the loop and never refreshed.
\<close>

function sweep_loop :: "int \<Rightarrow> int \<Rightarrow> response list \<Rightarrow> sweep \<Rightarrow> sweep outcome" where
  "sweep_loop highestCachedBlock maxBlock rs s =
     (if currentBlock s \<le> maxBlock then
        if highestCachedBlock > currentBlock s
        then sweep_loop highestCachedBlock maxBlock rs (s\<lparr>currentBlock := highestCachedBlock\<rparr>)
        else
          let toBlockChunk = min (currentBlock s + currentChunkSize s - 1) maxBlock;
              s1 = s\<lparr>queried := queried s @ [(currentBlock s, toBlockChunk)]\<rparr>
          in (case rs of
                [] \<Rightarrow> Awaiting s1
              | Logs events # rs' \<Rightarrow>
                  sweep_loop highestCachedBlock maxBlock rs'
                    ((setChunkSize (resizeAfterFetch (length events) (currentChunkSize s1))
                       (s1\<lparr>cache := bulkInsertEvents (cache s1) events\<rparr>))
                     \<lparr>currentBlock := toBlockChunk + 1\<rparr>)
              | Failure msg # rs' \<Rightarrow>
                  sweep_loop highestCachedBlock maxBlock rs'
                    (setChunkSize (resizeAfterError msg (currentChunkSize s1)) s1))
      else Finished s)"
  by pat_completeness auto
termination
  by (relation "measure (\<lambda>(h, m, rs, s).
        2 * length rs + (if currentBlock s \<le> m \<and> h > currentBlock s then 1 else 0))")
     (auto simp: setChunkSize_def split: option.splits)

declare sweep_loop.simps [simp del]

text \<open>
  The function with its two constants as parameters: the module constant
  \<^verbatim>\<open>startBlock\<close> (the deployment block of the contract) and the initial value of
  \<^verbatim>\<open>currentChunkSize\<close>.
\<close>

definition ingest :: "int \<Rightarrow> int \<Rightarrow> transfers \<Rightarrow> int \<Rightarrow> response list \<Rightarrow> sweep outcome" where
  "ingest genesis chunkSize0 tbl targetBlockNumber rs =
     (let s0 = \<lparr>currentBlock = genesis, currentChunkSize = chunkSize0, cache = tbl,
                queried = [], chunkLog = []\<rparr>;
          maxBlock = targetBlockNumber;
          highestCachedBlock = GetHighestCachedBlock tbl
      in if highestCachedBlock \<ge> maxBlock then Finished s0
         else sweep_loop highestCachedBlock maxBlock rs s0)"

definition startBlock :: int where "startBlock = 12286690"

definition getTransactionThroughBlock ::
  "transfers \<Rightarrow> int \<Rightarrow> response list \<Rightarrow> sweep outcome" where
  "getTransactionThroughBlock = ingest startBlock 50000"


text \<open>The bounds of the chunk size, for the size held and for every size logged.\<close>

definition chunk_ok :: "sweep \<Rightarrow> bool" where
  "chunk_ok s \<longleftrightarrow>
     MIN_CHUNK_SIZE \<le> currentChunkSize s \<and> currentChunkSize s \<le> MAX_CHUNK_SIZE
     \<and> (\<forall>c \<in> set (chunkLog s). MIN_CHUNK_SIZE \<le> c \<and> c \<le> MAX_CHUNK_SIZE)"

definition seededStore :: "address \<Rightarrow> address \<Rightarrow> transfers" where
  "seededStore alice bob =
     [\<lparr>blockNumber = 100, logIndex = 0, transactionHash = ''tx1'',
        fromAddress = zeroAddress, toAddress = alice, tokenId = 1\<rparr>,
      \<lparr>blockNumber = 150, logIndex = 0, transactionHash = ''tx2'',
        fromAddress = alice, toAddress = bob, tokenId = 1\<rparr>]"

definition Alice :: address where
  "Alice = ''0x00000000000000000000000000000000000A11CE''"

definition Bob :: address where
  "Bob = ''0x0000000000000000000000000000000000000B0B''"


section \<open>The checkpoint search (app.js, findBlockByTimestamp)\<close>

record blockInfo =
  number :: int
  timestamp :: int

text \<open>
  The target is \<^verbatim>\<open>process.argv[2]\<close>, a string that the comparisons convert to a number:
  \<open>Some t\<close> for a decimal integer, \<open>None\<close> for an argument that converts to \<^verbatim>\<open>NaN\<close> (or is
  absent). Every comparison with \<^verbatim>\<open>NaN\<close> is false.
\<close>

definition withinTolerance :: "int \<Rightarrow> int option \<Rightarrow> bool" where
  "withinTolerance blockTimestamp targetTimestamp =
     (case targetTimestamp of None \<Rightarrow> False | Some t \<Rightarrow> \<bar>blockTimestamp - t\<bar> \<le> 300)"

definition isBefore :: "int \<Rightarrow> int option \<Rightarrow> bool" where
  "isBefore blockTimestamp targetTimestamp =
     (case targetTimestamp of None \<Rightarrow> False | Some t \<Rightarrow> blockTimestamp < t)"

text \<open>
  The binary search. \<open>getBlock\<close> is \<^verbatim>\<open>provider.getBlock\<close>, \<open>None\<close> when the provider has
  no such block; the result \<open>None\<close> is \<^verbatim>\<open>foundBlock = null\<close>.
\<close>

function search :: "(int \<Rightarrow> blockInfo option) \<Rightarrow> int option \<Rightarrow> int \<Rightarrow> int \<Rightarrow> blockInfo option"
  where
  "search getBlock targetTimestamp startB endB =
     (if startB \<le> endB then
        let midBlock = (startB + endB) div 2 in
        (case getBlock midBlock of
           None \<Rightarrow> None
         | Some block \<Rightarrow>
             let blockTimestamp = timestamp block in
             if withinTolerance blockTimestamp targetTimestamp then Some block
             else if isBefore blockTimestamp targetTimestamp
               then search getBlock targetTimestamp (midBlock + 1) endB
               else search getBlock targetTimestamp startB (midBlock - 1))
      else None)"
  by pat_completeness auto
termination
  by (relation "measure (\<lambda>(g, t, a, b). nat (b - a + 1))") auto

declare search.simps [simp del]

definition findBlockByTimestamp ::
  "int \<Rightarrow> (int \<Rightarrow> blockInfo option) \<Rightarrow> int option \<Rightarrow> blockInfo option" where
  "findBlockByTimestamp blockNumberNow getBlock targetTimestamp =
     search getBlock targetTimestamp 0 blockNumberNow"


section \<open>The balance aggregation (app.js, getWalletBalance)\<close>

text \<open>
  One answer of \<^verbatim>\<open>provider.getBalance\<close>: a balance in wei, or a rejection with an
  \<^verbatim>\<open>Error\<close> whose message the \<^verbatim>\<open>catch\<close> block prints. A call whose answer list is used up
  has not been answered yet.
\<close>

datatype rpc = Balance int | RpcError string

datatype fetched = Returned int | Retrying nat | Fallback int

text \<open>
  The \<^verbatim>\<open>while (attempts < MAX_RETRIES)\<close> loop with the statements after it. \<open>Retrying n\<close>:
  the loop is waiting for the answer to attempt \<open>n\<close>. \<open>Fallback\<close>: the loop condition
  failed and \<^verbatim>\<open>ethers.parseUnits('0', 'wei')\<close> was returned. The bound is a parameter of
  the loop; the source fixes it to \<^verbatim>\<open>Infinity\<close>.
\<close>

fun retry_loop :: "enat \<Rightarrow> nat \<Rightarrow> rpc list \<Rightarrow> fetched" where
  "retry_loop MAX_RETRIES attempts answers =
     (if enat attempts < MAX_RETRIES then
        (case answers of
           [] \<Rightarrow> Retrying (Suc attempts)
         | Balance balance # _ \<Rightarrow> Returned balance
         | RpcError msg # later \<Rightarrow> retry_loop MAX_RETRIES (Suc attempts) later)
      else Fallback 0)"

declare retry_loop.simps [simp del]

definition fetchBalanceWithRetry :: "rpc list \<Rightarrow> fetched" where
  "fetchBalanceWithRetry answers = retry_loop \<infinity> 0 answers"

text \<open>
  How a promise ends: resolved with a value, rejected, or never settled. (The rejection
  reason is only printed by this program, so it is not part of the model.)
\<close>

datatype 'a promise = Resolved 'a | Rejected | Pending

definition wrapperPromise :: "fetched \<Rightarrow> int promise" where
  "wrapperPromise r =
     (case r of Returned b \<Rightarrow> Resolved b | Retrying n \<Rightarrow> Pending | Fallback z \<Rightarrow> Resolved z)"

text \<open>
  The task given to the limiter for one owner: \<^verbatim>\<open>fetchBalanceWithRetry(address)\<close>, then
  a \<^verbatim>\<open>then\<close> handler that returns the balance, then a \<^verbatim>\<open>catch\<close> handler that returns
  \<^verbatim>\<open>ethers.parseUnits('0', 'wei')\<close>. Its argument is the way the promise of
  \<^verbatim>\<open>fetchBalanceWithRetry\<close> ends. (The counter \<^verbatim>\<open>completed\<close> of the two handlers only
  feeds console output.)
\<close>

definition ownerTask :: "int promise \<Rightarrow> int promise" where
  "ownerTask wrapper =
     (case wrapper of
        Resolved balance \<Rightarrow> Resolved balance
      | Rejected \<Rightarrow> Resolved 0
      | Pending \<Rightarrow> Pending)"

text \<open>
  \<^verbatim>\<open>rateLimiter.add(fn)\<close> settles the promise it returns with the outcome of \<open>fn\<close>
  (\<^verbatim>\<open>fn().then(resolve).catch(reject)\<close>); the scheduling of the limiter, modelled in the
  last section, decides when the task starts, not what it yields.
\<close>

definition limited :: "'a promise \<Rightarrow> 'a promise" where
  "limited task = task"

text \<open>\<^verbatim>\<open>Promise.all\<close>: rejected as soon as one member is, resolved when all are.\<close>

fun Promise_all :: "'a promise list \<Rightarrow> 'a list promise" where
  "Promise_all [] = Resolved []"
| "Promise_all (p # ps) =
     (case p of
        Rejected \<Rightarrow> Rejected
      | Pending \<Rightarrow> (case Promise_all ps of Rejected \<Rightarrow> Rejected | _ \<Rightarrow> Pending)
      | Resolved v \<Rightarrow>
          (case Promise_all ps of
             Resolved vs \<Rightarrow> Resolved (v # vs)
           | Rejected \<Rightarrow> Rejected
           | Pending \<Rightarrow> Pending))"

text \<open>
  The \<^verbatim>\<open>try\<close> block: await all balances and add them up, starting from \<open>0\<close>; the
  \<^verbatim>\<open>catch\<close> block prints the error and throws it again. The result is the total in wei
  (\<^verbatim>\<open>ethers.formatEther\<close> only renders it).
\<close>

definition awaitBalances :: "int promise list \<Rightarrow> int promise" where
  "awaitBalances balances =
     (case Promise_all balances of
        Resolved balanceEth \<Rightarrow> Resolved (foldl (+) 0 balanceEth)
      | Rejected \<Rightarrow> Rejected
      | Pending \<Rightarrow> Pending)"

text \<open>
  The function from the point where the wrapper promises of the owners exist, and the
  whole function. \<open>provider address\<close> is the list of answers to the balance queries for
  \<open>address\<close> at the target block. No answer of the provider makes a wrapper promise
  reject; a rejected wrapper promise stands for a failure that escapes the retry loop
  (an exception thrown outside its \<^verbatim>\<open>try\<close> block).
\<close>

definition getWalletBalance_tasks :: "int promise list \<Rightarrow> int promise" where
  "getWalletBalance_tasks wrappers = awaitBalances (map (\<lambda>w. limited (ownerTask w)) wrappers)"

definition getWalletBalance :: "(address \<Rightarrow> rpc list) \<Rightarrow> address list \<Rightarrow> int promise" where
  "getWalletBalance provider walletAddress =
     getWalletBalance_tasks
       (map (\<lambda>address. wrapperPromise (fetchBalanceWithRetry (provider address))) walletAddress)"


text \<open>What an owner contributes to the total: the fetched balance, or zero.\<close>

definition balanceOr0 :: "int promise \<Rightarrow> int" where
  "balanceOr0 w = (case w of Resolved balance \<Rightarrow> balance | Rejected \<Rightarrow> 0 | Pending \<Rightarrow> 0)"


section \<open>The program (app.js, main)\<close>

text \<open>
  \<^verbatim>\<open>Object.fromEntries(holderMap)\<close> followed by \<^verbatim>\<open>for (const tokenId in holderObject)\<close>:
  the keys that are array indices (below \<open>2^32 - 1 = 4294967295\<close>) come first in
  ascending order, the others follow in insertion order. \<open>uniqueHolders\<close> is a \<^verbatim>\<open>Set\<close>, which keeps the first
  occurrence of each holder.
\<close>

definition holderObject_keys :: "holderMap \<Rightarrow> nat list" where
  "holderObject_keys m =
     sort [k \<leftarrow> map fst m. int k < 4294967295] @
     [k \<leftarrow> map fst m. \<not> int k < 4294967295]"

definition set_add :: "'a list \<Rightarrow> 'a \<Rightarrow> 'a list" where
  "set_add xs x = (if x \<in> set xs then xs else xs @ [x])"

definition uniqueHoldersArray :: "holderMap \<Rightarrow> address list" where
  "uniqueHoldersArray m =
     foldl set_add [] (List.map_filter (map_of m) (holderObject_keys m))"

datatype console_line =
    FoundBlock int int
  | CouldNotFind "int option"
  | TotalSum int

datatype js_error = TypeError | UnhandledRejection

datatype ending = Completed | Uncaught js_error | Stalled

text \<open>
  The environment of a run: the provider's chain, the command-line argument, the cache
  file with the order its engine gives to tied rows, and the answers of the two remote
  sources.
\<close>

record environment =
  blockNumberNow :: int
  getBlock :: "int \<Rightarrow> blockInfo option"
  argv2 :: "int option"
  events_db :: transfers
  tieRank :: "transfer \<Rightarrow> nat"
  logAnswers :: "response list"
  balanceAnswers :: "address \<Rightarrow> rpc list"

record report =
  console :: "console_line list"
  windows :: "(int \<times> int) list"
  ledger :: "holderMap option"
  balanceQueries :: "address list"
  total :: "int option"
  ending :: ending

text \<open>Reading \<^verbatim>\<open>block.number\<close>: a property read on \<^verbatim>\<open>null\<close> throws a \<^verbatim>\<open>TypeError\<close>.\<close>

definition block_number :: "blockInfo option \<Rightarrow> js_error + int" where
  "block_number block = (case block of None \<Rightarrow> Inl TypeError | Some b \<Rightarrow> Inr (number b))"

text \<open>
  \<open>main\<close>, statement by statement: the search, the \<^verbatim>\<open>if (block) ... else ...\<close>, and then,
  on both branches, the statements that read \<^verbatim>\<open>block.number\<close>. The report collects what
  the run printed from \<open>main\<close> itself, the windows it queried, the holder map, the owners
  whose balance it asked for, and the total.
\<close>

definition main :: "environment \<Rightarrow> report" where
  "main env =
     (let block = findBlockByTimestamp (blockNumberNow env) (getBlock env) (argv2 env);
          (printed, sweep) =
            (case block of
               Some b \<Rightarrow>
                 ([FoundBlock (number b) (timestamp b)],
                  Some (getTransactionThroughBlock (events_db env) (number b) (logAnswers env)))
             | None \<Rightarrow> ([CouldNotFind (argv2 env)], None));
          asked = (case sweep of None \<Rightarrow> [] | Some out \<Rightarrow> queried (state_of out));
          db = (case sweep of None \<Rightarrow> events_db env | Some out \<Rightarrow> cache (state_of out));
          r0 = \<lparr>console = printed, windows = asked, ledger = None, balanceQueries = [],
                total = None, ending = Stalled\<rparr>
      in case sweep of
           Some (Awaiting s) \<Rightarrow> r0
         | _ \<Rightarrow>
           (case block_number block of
              Inl err \<Rightarrow> r0\<lparr>ending := Uncaught err\<rparr>
            | Inr targetBlockNumber \<Rightarrow>
                let holderMap = getHolderMapByBlock (tieRank env) db startBlock targetBlockNumber;
                    holders = uniqueHoldersArray holderMap;
                    r1 = r0\<lparr>ledger := Some holderMap, balanceQueries := holders\<rparr>
                in (case getWalletBalance (balanceAnswers env) holders of
                      Resolved totalSum \<Rightarrow>
                        r1\<lparr>console := printed @ [TotalSum totalSum], total := Some totalSum,
                           ending := Completed\<rparr>
                    | Rejected \<Rightarrow> r1\<lparr>ending := Uncaught UnhandledRejection\<rparr>
                    | Pending \<Rightarrow> r1)))"


text \<open>
  Three environments: a provider that has no block at all, a chain whose blocks are all
  far later than the target (the search interval collapses), and a run that completes.
\<close>

definition emptyChain :: environment where
  "emptyChain = \<lparr>blockNumberNow = 20, getBlock = (\<lambda>n. None), argv2 = Some 1700000000,
      events_db = [], tieRank = (\<lambda>r. 0), logAnswers = [], balanceAnswers = (\<lambda>a. [])\<rparr>"

definition youngChain :: environment where
  "youngChain = \<lparr>blockNumberNow = 3,
      getBlock = (\<lambda>n. Some \<lparr>number = n, timestamp = 1700000000 + 12 * n\<rparr>),
      argv2 = Some 1600000000,
      events_db = [], tieRank = (\<lambda>r. 0), logAnswers = [], balanceAnswers = (\<lambda>a. [])\<rparr>"

definition smallChain :: environment where
  "smallChain = \<lparr>blockNumberNow = 30000000,
      getBlock = (\<lambda>n. Some \<lparr>number = n, timestamp = 12 * n\<rparr>),
      argv2 = Some (12 * 12286700),
      events_db = [],
      tieRank = (\<lambda>r. 0),
      logAnswers = [Logs [\<lparr>blockNumber = 12286691, logIndex = 0, transactionHash = ''tx1'',
          fromAddress = zeroAddress, toAddress = Alice, tokenId = 1\<rparr>,
        \<lparr>blockNumber = 12286695, logIndex = 3, transactionHash = ''tx2'',
          fromAddress = zeroAddress, toAddress = Bob, tokenId = 2\<rparr>]],
      balanceAnswers = (\<lambda>a. if a = Alice then [RpcError ''rate limited'', Balance 10] else [Balance 5])\<rparr>"


section \<open>The rate limiter (ratelimit.js) on the event loop\<close>

text \<open>
  The fields of the class. Times are milliseconds; \<^verbatim>\<open>1000 / requestsPerSecond\<close> is a
  division of doubles, taken here over the rationals (exact for the \<open>25\<close> requests per
  second of this program, where the interval is \<open>40\<close>; the rate is not \<open>0\<close>).
  \<open>timeoutId\<close> is \<open>None\<close> for \<^verbatim>\<open>null\<close> and the handle returned by \<^verbatim>\<open>setTimeout\<close> otherwise;
  a handle is always truthy.

  The limiter runs on the event loop, whose state holds what the limiter reads and
  causes: the clock (\<^verbatim>\<open>Date.now()\<close>), the pending timers with their handles and due
  times, and the tasks that were started and have not settled. \<open>starts\<close>, \<open>settled\<close> and
  \<open>submitted\<close> are the history of the run: each started task with the clock at its start,
  each task whose promise has settled, and each task passed to \<^verbatim>\<open>add\<close>, in order.
\<close>


record 'a RateLimiter =
  interval :: rat
  queue :: "'a list"
  lastDispatchTime :: rat
  timeoutId :: "nat option"

definition new_RateLimiter :: "rat \<Rightarrow> 'a RateLimiter" where
  "new_RateLimiter requestsPerSecond =
     \<lparr>interval = 1000 / requestsPerSecond, queue = [], lastDispatchTime = 0, timeoutId = None\<rparr>"

record 'a runtime =
  limiter :: "'a RateLimiter"
  clock :: rat
  timers :: "(nat \<times> rat) list"
  nextHandle :: nat
  inflight :: "'a list"
  starts :: "('a \<times> rat) list"
  settled :: "'a list"
  submitted :: "'a list"

text \<open>
  \<open>dispatch\<close>. Both branches of the source test \<^verbatim>\<open>this.queue.length > 0\<close>; the model
  tests it once, by cases on the queue. Starting a task calls \<^verbatim>\<open>fn()\<close> at once.
  \<open>add\<close> is the executor of the promise that \<^verbatim>\<open>add\<close> returns; \<open>settle\<close> is the settling of
  a started task followed by its \<^verbatim>\<open>finally\<close> handler; \<open>fire\<close> is the callback of a timer.
  The model does not constrain when the runtime fires a pending timer.
\<close>

definition dispatch :: "'a runtime \<Rightarrow> 'a runtime" where
  "dispatch w =
     (let this = limiter w in
      if timeoutId this \<noteq> None then w
      else
        let now = clock w; timeSinceLastDispatch = now - lastDispatchTime this in
        (case queue this of
           fn # rest \<Rightarrow>
             if timeSinceLastDispatch \<ge> interval this
             then w\<lparr>limiter := this\<lparr>queue := rest, lastDispatchTime := now\<rparr>,
                    inflight := inflight w @ [fn],
                    starts := starts w @ [(fn, now)]\<rparr>
             else
               let delay = interval this - timeSinceLastDispatch; h = nextHandle w in
               w\<lparr>limiter := this\<lparr>timeoutId := Some h\<rparr>,
                  timers := timers w @ [(h, now + delay)],
                  nextHandle := Suc h\<rparr>
         | [] \<Rightarrow> w))"

definition add :: "'a \<Rightarrow> 'a runtime \<Rightarrow> 'a runtime" where
  "add fn w =
     dispatch (w\<lparr>limiter := (limiter w)\<lparr>queue := queue (limiter w) @ [fn]\<rparr>,
                 submitted := submitted w @ [fn]\<rparr>)"

definition settle :: "'a \<Rightarrow> 'a runtime \<Rightarrow> 'a runtime" where
  "settle fn w =
     dispatch (w\<lparr>inflight := remove1 fn (inflight w),
                 settled := settled w @ [fn],
                 limiter := (limiter w)\<lparr>timeoutId := None\<rparr>\<rparr>)"

definition fire :: "nat \<Rightarrow> 'a runtime \<Rightarrow> 'a runtime" where
  "fire h w =
     dispatch (w\<lparr>timers := filter (\<lambda>t. fst t \<noteq> h) (timers w),
                 limiter := (limiter w)\<lparr>timeoutId := None\<rparr>\<rparr>)"

datatype 'a event = Add 'a | Tick rat | Settle 'a | Fire nat

definition step :: "'a event \<Rightarrow> 'a runtime \<Rightarrow> 'a runtime option" where
  "step ev w =
     (case ev of
        Add fn \<Rightarrow> Some (add fn w)
      | Tick d \<Rightarrow> if 0 \<le> d then Some (w\<lparr>clock := clock w + d\<rparr>) else None
      | Settle fn \<Rightarrow> if fn \<in> set (inflight w) then Some (settle fn w) else None
      | Fire h \<Rightarrow> if h \<in> fst ` set (timers w) then Some (fire h w) else None)"

fun run :: "'a event list \<Rightarrow> 'a runtime \<Rightarrow> 'a runtime option" where
  "run [] w = Some w"
| "run (ev # evs) w = (case step ev w of None \<Rightarrow> None | Some w' \<Rightarrow> run evs w')"

definition boot :: "rat \<Rightarrow> rat \<Rightarrow> 'a runtime" where
  "boot requestsPerSecond t0 =
     \<lparr>limiter = new_RateLimiter requestsPerSecond, clock = t0, timers = [], nextHandle = 0,
      inflight = [], starts = [], settled = [], submitted = []\<rparr>"


text \<open>
  The scheduler of a quiet system whose tasks take negligible time: a started task
  settles before anything else happens, and when nothing is in flight the timer that is
  due first fires when it is due (at once if that time has passed). It stops when no
  task is in flight and no timer is pending. Its termination measure counts the queue
  first, then the tasks in flight, the timers, and the timers that are due before the
  next slot opens (\<open>premature\<close>).
\<close>

definition premature :: "'a runtime \<Rightarrow> nat" where
  "premature w =
     length (filter (\<lambda>t. snd t < lastDispatchTime (limiter w) + interval (limiter w)) (timers w))"

definition backlog :: "'a runtime \<Rightarrow> nat" where
  "backlog w = 2 * length (inflight w) + length (timers w) + premature w"

lemma dispatch_cases:
  assumes "timeoutId (limiter w) = None"
  obtains
    (start) "length (queue (limiter (dispatch w))) < length (queue (limiter w))"
  | (arm) "queue (limiter w) \<noteq> []"
      "clock w < lastDispatchTime (limiter w) + interval (limiter w)"
      "queue (limiter (dispatch w)) = queue (limiter w)"
      "backlog (dispatch w) = Suc (backlog w)"
  | (idle) "dispatch w = w"
proof (cases "queue (limiter w)")
  case Nil
  with assms have "dispatch w = w" by (simp add: dispatch_def Let_def)
  then show ?thesis by (rule idle)
next
  case (Cons fn rest)
  show ?thesis
  proof (cases "clock w - lastDispatchTime (limiter w) \<ge> interval (limiter w)")
    case True
    with assms Cons have "length (queue (limiter (dispatch w))) < length (queue (limiter w))"
      by (simp add: dispatch_def Let_def)
    then show ?thesis by (rule start)
  next
    case False
    with assms Cons have
      "queue (limiter (dispatch w)) = queue (limiter w)"
      "backlog (dispatch w) = Suc (backlog w)"
      by (simp_all add: dispatch_def Let_def backlog_def premature_def)
    moreover from False have "clock w < lastDispatchTime (limiter w) + interval (limiter w)"
      by simp
    moreover from Cons have "queue (limiter w) \<noteq> []" by simp
    ultimately show ?thesis by (intro arm)
  qed
qed

lemma length_filter_drop:
  assumes "x \<in> set xs" "\<not> P x"
  shows "length (filter P xs) < length xs"
  using assms by (metis filter_id_conv length_filter_le le_neq_implies_less length_filter_less)

lemma premature_drop:
  assumes "t \<in> set ts" "Q t"
  shows "length (filter Q (filter (\<lambda>u. fst u \<noteq> fst t) ts)) < length (filter Q ts)"
proof -
  have "filter Q (filter (\<lambda>u. fst u \<noteq> fst t) ts) = filter (\<lambda>u. fst u \<noteq> fst t) (filter Q ts)"
    by (simp add: conj_commute)
  moreover have "t \<in> set (filter Q ts)" using assms by simp
  ultimately show ?thesis
    using length_filter_drop[of t "filter Q ts" "\<lambda>u. fst u \<noteq> fst t"] by simp
qed


lemma settle_decreases:
  assumes "inflight w = fn # rest"
  shows "(settle fn w, w) \<in> measures [\<lambda>w. length (queue (limiter w)), backlog]"
proof -
  let ?w1 = "w\<lparr>inflight := remove1 fn (inflight w), settled := settled w @ [fn],
               limiter := (limiter w)\<lparr>timeoutId := None\<rparr>\<rparr>"
  have b: "Suc (Suc (backlog ?w1)) = backlog w"
    using assms by (simp add: backlog_def premature_def)
  have q: "queue (limiter ?w1) = queue (limiter w)" by simp
  have "timeoutId (limiter ?w1) = None" by simp
  then show ?thesis
  proof (cases rule: dispatch_cases)
    case start
    with q show ?thesis by (simp add: settle_def)
  next
    case arm
    with q b show ?thesis by (simp add: settle_def)
  next
    case idle
    with q b show ?thesis by (simp add: settle_def)
  qed
qed

lemma fire_decreases:
  assumes "timers w \<noteq> []" and "t = arg_min_list snd (timers w)"
  shows "(fire (fst t) (w\<lparr>clock := max (clock w) (snd t)\<rparr>), w)
           \<in> measures [\<lambda>w. length (queue (limiter w)), backlog]"
proof -
  let ?w1 = "w\<lparr>clock := max (clock w) (snd t),
               timers := filter (\<lambda>u. fst u \<noteq> fst t) (timers w),
               limiter := (limiter w)\<lparr>timeoutId := None\<rparr>\<rparr>"
  have f: "fire (fst t) (w\<lparr>clock := max (clock w) (snd t)\<rparr>) = dispatch ?w1"
    by (simp add: fire_def)
  have mem: "t \<in> set (timers w)"
    using assms arg_min_list_in[of "timers w" snd] by simp
  then have less: "length (timers ?w1) < length (timers w)"
    using length_filter_drop[of t "timers w" "\<lambda>u. fst u \<noteq> fst t"] by simp
  have "filter (\<lambda>u. snd u < lastDispatchTime (limiter w) + interval (limiter w))
          (filter (\<lambda>u. fst u \<noteq> fst t) (timers w))
        = filter (\<lambda>u. fst u \<noteq> fst t)
          (filter (\<lambda>u. snd u < lastDispatchTime (limiter w) + interval (limiter w)) (timers w))"
    by (simp add: conj_commute)
  then have od: "premature ?w1 \<le> premature w"
    by (simp add: premature_def del: filter_filter)
  have q: "queue (limiter ?w1) = queue (limiter w)" by simp
  have i: "inflight ?w1 = inflight w" by simp
  have "timeoutId (limiter ?w1) = None" by simp
  then show ?thesis
  proof (cases rule: dispatch_cases)
    case start
    with q f show ?thesis by simp
  next
    case arm
    from arm(2) have "snd t < lastDispatchTime (limiter w) + interval (limiter w)"
      by simp
    with mem have "premature ?w1 < premature w"
      unfolding premature_def using premature_drop[of t "timers w"
          "\<lambda>u. snd u < lastDispatchTime (limiter w) + interval (limiter w)"] by simp
    with less i have "Suc (backlog ?w1) < backlog w" by (simp add: backlog_def)
    with arm q f show ?thesis by simp
  next
    case idle
    from less od i have "backlog ?w1 < backlog w" by (simp add: backlog_def)
    with idle q f show ?thesis by simp
  qed
qed

function drain :: "'a runtime \<Rightarrow> 'a runtime" where
  "drain w =
     (case inflight w of
        fn # _ \<Rightarrow> drain (settle fn w)
      | [] \<Rightarrow>
          (case timers w of
             [] \<Rightarrow> w
           | _ # _ \<Rightarrow>
               let t = arg_min_list snd (timers w)
               in drain (fire (fst t) (w\<lparr>clock := max (clock w) (snd t)\<rparr>))))"
  by pat_completeness auto
termination
proof (relation "measures [\<lambda>w. length (queue (limiter w)), backlog]")
  show "wf (measures [\<lambda>w::'a runtime. length (queue (limiter w)), backlog])"
    by simp
next
  fix w :: "'a runtime" and fn rest
  assume "inflight w = fn # rest"
  then show "(settle fn w, w) \<in> measures [\<lambda>w. length (queue (limiter w)), backlog]"
    by (rule settle_decreases)
next
  fix w :: "'a runtime" and x xs t
  assume "inflight w = []" "timers w = x # xs" "t = arg_min_list snd (timers w)"
  then show "(fire (fst t) (w\<lparr>clock := max (clock w) (snd t)\<rparr>), w)
           \<in> measures [\<lambda>w. length (queue (limiter w)), backlog]"
    by (intro fire_decreases) simp_all
qed

declare drain.simps [simp del]

text \<open>
  The tasks passed to \<^verbatim>\<open>add\<close> in a list of events, and two properties of the states of
  the event loop: the bookkeeping agrees with the history, and a waiting task is never
  left without a task in flight or a pending timer to wake the limiter up.
\<close>

fun added :: "'a event list \<Rightarrow> 'a list" where
  "added [] = []"
| "added (Add fn # evs) = fn # added evs"
| "added (_ # evs) = added evs"

definition coherent :: "'a runtime \<Rightarrow> bool" where
  "coherent w \<longleftrightarrow>
     (\<forall>h. timeoutId (limiter w) = Some h \<longrightarrow> h \<in> fst ` set (timers w))
     \<and> submitted w = map fst (starts w) @ queue (limiter w)
     \<and> mset (map fst (starts w)) = mset (inflight w) + mset (settled w)
     \<and> successively (\<lambda>a b. interval (limiter w) \<le> b - a) (map snd (starts w))
     \<and> (starts w \<noteq> [] \<longrightarrow> snd (last (starts w)) = lastDispatchTime (limiter w))"

definition served :: "'a runtime \<Rightarrow> bool" where
  "served w \<longleftrightarrow> (queue (limiter w) \<noteq> [] \<longrightarrow> inflight w \<noteq> [] \<or> timers w \<noteq> [])"


section \<open>Properties of the cache and of the replay\<close>

lemma maxBlockNumber_Max:
  "tbl \<noteq> [] \<Longrightarrow> maxBlockNumber tbl = Some (Max (set (map blockNumber tbl)))"
proof (induction tbl)
  case Nil
  then show ?case by simp
next
  case (Cons r rs)
  show ?case
  proof (cases "rs = []")
    case True
    then show ?thesis by simp
  next
    case False
    with Cons.IH have "maxBlockNumber rs = Some (Max (set (map blockNumber rs)))"
      by simp
    with False show ?thesis by simp
  qed
qed

text \<open>
  C9. The highest cached block is \<open>-1\<close> for the empty table and also whenever the largest
  stored block number is \<open>0\<close>, because \<^verbatim>\<open>row.maxBlock || -1\<close> maps the falsy \<open>0\<close> to \<open>-1\<close>;
  whenever the largest stored block number is positive, it is returned.
\<close>

theorem GetHighestCachedBlock_falsy_zero:
  "GetHighestCachedBlock [] = - 1
   \<and> (tbl \<noteq> [] \<and> Max (set (map blockNumber tbl)) = 0 \<longrightarrow> GetHighestCachedBlock tbl = - 1)
   \<and> (tbl \<noteq> [] \<and> 0 < Max (set (map blockNumber tbl))
        \<longrightarrow> GetHighestCachedBlock tbl = Max (set (map blockNumber tbl)))"
  by (simp add: GetHighestCachedBlock_def falsy_or_def maxBlockNumber_Max)

theorem GetHighestCachedBlock_falsy_zero_witness:
  "Max (set (map blockNumber
      [\<lparr>blockNumber = 0, logIndex = 0, transactionHash = ''tx0'',
         fromAddress = zeroAddress, toAddress = Alice, tokenId = 1\<rparr>])) = 0
   \<and> GetHighestCachedBlock
      [\<lparr>blockNumber = 0, logIndex = 0, transactionHash = ''tx0'',
         fromAddress = zeroAddress, toAddress = Alice, tokenId = 1\<rparr>] = - 1
   \<and> 0 < Max (set (map blockNumber (seededStore Alice Bob)))
   \<and> GetHighestCachedBlock (seededStore Alice Bob) = 150"
  using
    GetHighestCachedBlock_falsy_zero [of
      "[\<lparr>blockNumber = 0, logIndex = 0, transactionHash = ''tx0'',
          fromAddress = zeroAddress, toAddress = Alice, tokenId = 1\<rparr>]"]
    GetHighestCachedBlock_falsy_zero [of "seededStore Alice Bob"]
  by (simp add: seededStore_def)

lemma map_of_applyEvent: "map_of (applyEvent m e) = spec_reduce (map_of m) e"
  by (simp add: applyEvent_def spec_reduce_def Let_def update_conv' delete_conv')

lemma map_of_replay: "map_of (replay m es) = foldl spec_reduce (map_of m) es"
  by (induction es arbitrary: m) (simp_all add: map_of_applyEvent)

lemma distinct_applyEvent: "distinct (map fst m) \<Longrightarrow> distinct (map fst (applyEvent m e))"
  by (simp add: applyEvent_def Let_def distinct_update distinct_delete)

lemma distinct_replay: "distinct (map fst m) \<Longrightarrow> distinct (map fst (replay m es))"
  by (induction es arbitrary: m) (simp_all add: distinct_applyEvent)

lemma foldl_spec_reduce_other:
  "\<forall>e \<in> set es. tokenId e \<noteq> t \<Longrightarrow> foldl spec_reduce m es t = m t"
  by (induction es arbitrary: m) (simp_all add: spec_reduce_def)

lemma foldl_spec_reduce_burn:
  assumes "toAddress e = zeroAddress" and "\<forall>e' \<in> set es'. tokenId e' \<noteq> tokenId e"
  shows "foldl spec_reduce m (es @ e # es') (tokenId e) = None"
  using assms by (simp add: foldl_spec_reduce_other spec_reduce_def)

lemma map_of_replay_spec: "map_of (replay [] rows) = spec_replay rows"
  by (simp add: map_of_replay spec_replay_def)

lemma rangeAnswer_rows:
  assumes "rangeAnswer tbl a b rows"
  shows "mset rows = {#r \<in># mset tbl. a \<le> blockNumber r \<and> blockNumber r \<le> b#}"
    and "sorted_wrt (\<lambda>x y. blockNumber x < blockNumber y
                 \<or> blockNumber x = blockNumber y \<and> logIndex x \<le> logIndex y) rows"
proof -
  from assms show "mset rows = {#r \<in># mset tbl. a \<le> blockNumber r \<and> blockNumber r \<le> b#}"
    by (simp add: rangeAnswer_def inRange_def)
  from assms have "sorted_wrt (\<lambda>x y. orderKey x \<le> orderKey y) rows"
    by (simp add: rangeAnswer_def sorted_map)
  then show "sorted_wrt (\<lambda>x y. blockNumber x < blockNumber y
                 \<or> blockNumber x = blockNumber y \<and> logIndex x \<le> logIndex y) rows"
    by (rule sorted_wrt_mono_rel[rotated]) (auto simp: orderKey_def)
qed

lemma sorted_fst_of_pairs:
  "sorted (map (\<lambda>r. (k r, t r)) rows) \<Longrightarrow> sorted (map k rows)"
  by (induction rows) auto

lemma rangeAnswer_query: "rangeAnswer tbl a b (getEventsByBlockRange tie tbl a b)"
proof -
  have "sorted (map (\<lambda>r. (orderKey r, tie r)) (getEventsByBlockRange tie tbl a b))"
    unfolding getEventsByBlockRange_def by (rule sorted_sort_key)
  then have "sorted (map orderKey (getEventsByBlockRange tie tbl a b))"
    by (rule sorted_fst_of_pairs)
  then show ?thesis
    by (simp add: rangeAnswer_def getEventsByBlockRange_def)
qed

lemma sorted_unique_by_key:
  assumes "sorted (map f xs)" and "sorted (map f ys)" and "mset xs = mset ys"
    and "distinct (map f xs)"
  shows "xs = ys"
proof -
  from assms(3) have st: "set xs = set ys"
    by (metis set_mset_mset)
  from assms(3) have "mset (map f xs) = mset (map f ys)"
    by simp
  with assms(4) have d: "distinct (map f ys)"
    by (metis mset_eq_imp_distinct_iff)
  have "set (map f xs) = set (map f ys)"
    using st by simp
  with assms(1,2,4) d have "map f xs = map f ys"
    by (intro sorted_distinct_set_unique)
  moreover from assms(4) have "inj_on f (set xs \<union> set ys)"
    using st by (simp add: distinct_map)
  ultimately show ?thesis
    by (simp add: inj_on_map_eq_map)
qed

text \<open>Where no two rows of the range agree on both columns, the query has one answer.\<close>

lemma rangeAnswer_unique:
  assumes "distinct (map orderKey (filter (inRange a b) tbl))"
    and "rangeAnswer tbl a b rows" and "rangeAnswer tbl a b rows'"
  shows "rows = rows'"
proof -
  from assms(2) have "mset (map orderKey rows) = mset (map orderKey (filter (inRange a b) tbl))"
    by (simp add: rangeAnswer_def)
  with assms(1) have "distinct (map orderKey rows)"
    by (metis mset_eq_imp_distinct_iff)
  with assms(2,3) show ?thesis
    by (intro sorted_unique_by_key [of orderKey]) (simp_all add: rangeAnswer_def)
qed

text \<open>
  Every answer is the engine's answer under some ranking of the rows (the rows of a
  table are distinct, since their unique keys are).
\<close>

lemma rankIn_nth: "distinct xs \<Longrightarrow> i < length xs \<Longrightarrow> rankIn xs (xs ! i) = i"
proof (induction xs arbitrary: i)
  case Nil
  then show ?case by simp
next
  case (Cons y ys)
  show ?case
  proof (cases i)
    case 0
    then show ?thesis by simp
  next
    case (Suc j)
    with Cons.prems have "ys ! j \<in> set ys" "y \<notin> set ys" by simp_all
    then have "ys ! j \<noteq> y" by blast
    with Cons Suc show ?thesis by simp
  qed
qed

lemma rangeAnswer_ranked:
  assumes "distinct rows" and "rangeAnswer tbl a b rows"
  shows "getEventsByBlockRange (rankIn rows) tbl a b = rows"
proof -
  let ?K = "\<lambda>r. (orderKey r, rankIn rows r)"
  let ?L = "getEventsByBlockRange (rankIn rows) tbl a b"
  from assms(2) have s: "sorted (map orderKey rows)"
    and m: "mset rows = mset (filter (inRange a b) tbl)"
    by (simp_all add: rangeAnswer_def)
  have sortedK: "sorted (map ?K rows)"
    unfolding sorted_iff_nth_mono
  proof (intro allI impI)
    fix i j
    assume ij: "i \<le> j" and j: "j < length (map ?K rows)"
    then have "orderKey (rows ! i) \<le> orderKey (rows ! j)"
      using s by (simp add: sorted_iff_nth_mono)
    moreover from ij j assms(1) have "rankIn rows (rows ! i) = i" "rankIn rows (rows ! j) = j"
      by (simp_all add: rankIn_nth)
    ultimately show "map ?K rows ! i \<le> map ?K rows ! j"
      using ij j by auto
  qed
  have "inj_on ?K (set rows)"
  proof (rule inj_onI)
    fix x y
    assume "x \<in> set rows" "y \<in> set rows" and eq: "?K x = ?K y"
    then obtain i j where "i < length rows" "rows ! i = x" "j < length rows" "rows ! j = y"
      by (auto simp: in_set_conv_nth)
    with assms(1) eq show "x = y"
      using rankIn_nth [of rows i] rankIn_nth [of rows j] by auto
  qed
  with assms(1) have distinctK: "distinct (map ?K rows)"
    by (simp add: distinct_map)
  have "sorted (map ?K ?L)"
    unfolding getEventsByBlockRange_def by (rule sorted_sort_key)
  moreover have "mset rows = mset ?L"
    using m by (simp add: getEventsByBlockRange_def)
  ultimately have "rows = ?L"
    using sortedK distinctK by (intro sorted_unique_by_key [of ?K])
  then show ?thesis by simp
qed

lemma ledger_refines:
  assumes "distinct (map orderKey (filter (inRange a b) tbl))"
  shows "map_of (getHolderMapByBlock tie tbl a b) = spec_buildLedger tbl a b"
proof -
  have k: "orderKey = (\<lambda>e. (blockNumber e, logIndex e))"
    by (simp add: fun_eq_iff orderKey_def)
  have r: "inRange a b = (\<lambda>e. a \<le> blockNumber e \<and> blockNumber e \<le> b)"
    by (simp add: fun_eq_iff inRange_def)
  have "rangeAnswer tbl a b (sort_key orderKey (filter (inRange a b) tbl))"
    by (simp add: rangeAnswer_def)
  with assms rangeAnswer_query
  have "getEventsByBlockRange tie tbl a b = sort_key orderKey (filter (inRange a b) tbl)"
    by (rule rangeAnswer_unique)
  then show ?thesis
    by (simp add: getHolderMapByBlock_def spec_buildLedger_def map_of_replay_spec k r)
qed

text \<open>
  Where two rows agree on both columns, the engine's order decides the ledger: a store
  that holds two transfers of token \<open>1\<close> at height \<open>150\<close> and log index \<open>0\<close>, to Alice and
  to Bob, gives the token to Alice under one ranking of the rows and to Bob under the
  other, and both orders are answers of the query.
\<close>

lemma tied_rows_order_decides:
  "getHolderMapByBlock (\<lambda>r. 0)
     [\<lparr>blockNumber = 150, logIndex = 0, transactionHash = ''txB'',
        fromAddress = Alice, toAddress = Bob, tokenId = 1\<rparr>,
      \<lparr>blockNumber = 150, logIndex = 0, transactionHash = ''txA'',
        fromAddress = zeroAddress, toAddress = Alice, tokenId = 1\<rparr>] 100 200 = [(1, Alice)]
   \<and> getHolderMapByBlock (\<lambda>r. if transactionHash r = ''txA'' then 0 else 1)
     [\<lparr>blockNumber = 150, logIndex = 0, transactionHash = ''txB'',
        fromAddress = Alice, toAddress = Bob, tokenId = 1\<rparr>,
      \<lparr>blockNumber = 150, logIndex = 0, transactionHash = ''txA'',
        fromAddress = zeroAddress, toAddress = Alice, tokenId = 1\<rparr>] 100 200 = [(1, Bob)]"
  by (simp add: getHolderMapByBlock_def getEventsByBlockRange_def inRange_def orderKey_def
      applyEvent_def Let_def Alice_def Bob_def zeroAddress_def)

text \<open>
  C6. Whatever order the engine gives to rows that agree on both columns, the events
  the replay reads are exactly the cached events of the inclusive range, ascending in
  block number and then in log index, and the replay applies them in the order read;
  conversely every such arrangement of distinct rows is read under some ranking.
  Each event removes its token when the recipient is the zero address and otherwise
  sets the token's holder to the recipient. For every sequence of events, the resulting
  map has one entry per token and is the reference fold over that sequence, and a token
  whose last event in the sequence is a burn has no entry, whatever came before. Where
  the two columns order the events of the range completely, the query has a single
  answer and the result is the reference ledger of the store.
\<close>

theorem getHolderMapByBlock_replay:
  "rangeAnswer tbl a b (getEventsByBlockRange tie tbl a b)
   \<and> getHolderMapByBlock tie tbl a b = replay [] (getEventsByBlockRange tie tbl a b)
   \<and> (\<forall>rows. rangeAnswer tbl a b rows \<longrightarrow>
        mset rows = {#r \<in># mset tbl. a \<le> blockNumber r \<and> blockNumber r \<le> b#}
        \<and> sorted_wrt (\<lambda>x y. blockNumber x < blockNumber y
                 \<or> blockNumber x = blockNumber y \<and> logIndex x \<le> logIndex y) rows
        \<and> (distinct rows \<longrightarrow> getEventsByBlockRange (rankIn rows) tbl a b = rows))
   \<and> (\<forall>m e. map_of (applyEvent m e) =
         (if toAddress e = zeroAddress then (map_of m)(tokenId e := None)
          else (map_of m)(tokenId e \<mapsto> toAddress e)))
   \<and> (\<forall>rows. distinct (map fst (replay [] rows))
          \<and> map_of (replay [] rows) = spec_replay rows)
   \<and> (\<forall>es e es'. toAddress e = zeroAddress \<and> (\<forall>e' \<in> set es'. tokenId e' \<noteq> tokenId e)
        \<longrightarrow> map_of (replay [] (es @ e # es')) (tokenId e) = None)
   \<and> (distinct (map orderKey (filter (inRange a b) tbl)) \<longrightarrow>
        (\<forall>rows. rangeAnswer tbl a b rows \<longrightarrow> rows = getEventsByBlockRange tie tbl a b)
        \<and> map_of (getHolderMapByBlock tie tbl a b) = spec_buildLedger tbl a b)"
proof (intro conjI allI impI)
  show "rangeAnswer tbl a b (getEventsByBlockRange tie tbl a b)"
    by (rule rangeAnswer_query)
  show "getHolderMapByBlock tie tbl a b = replay [] (getEventsByBlockRange tie tbl a b)"
    by (simp add: getHolderMapByBlock_def)
  show "map_of (applyEvent m e) =
         (if toAddress e = zeroAddress then (map_of m)(tokenId e := None)
          else (map_of m)(tokenId e \<mapsto> toAddress e))" for m e
    by (simp add: map_of_applyEvent spec_reduce_def)
  show "distinct (map fst (replay [] rows))" for rows
    by (simp add: distinct_replay)
  show "map_of (replay [] rows) = spec_replay rows" for rows
    by (rule map_of_replay_spec)
next
  fix rows
  assume "rangeAnswer tbl a b rows"
  then show "mset rows = {#r \<in># mset tbl. a \<le> blockNumber r \<and> blockNumber r \<le> b#}"
    and "sorted_wrt (\<lambda>x y. blockNumber x < blockNumber y
                 \<or> blockNumber x = blockNumber y \<and> logIndex x \<le> logIndex y) rows"
    by (rule rangeAnswer_rows)+
next
  fix rows
  assume "rangeAnswer tbl a b rows" and "distinct rows"
  then show "getEventsByBlockRange (rankIn rows) tbl a b = rows"
    by (intro rangeAnswer_ranked)
next
  fix es es' :: "transfer list" and e :: transfer
  assume "toAddress e = zeroAddress \<and> (\<forall>e' \<in> set es'. tokenId e' \<noteq> tokenId e)"
  then have "foldl spec_reduce Map.empty (es @ e # es') (tokenId e) = None"
    by (intro foldl_spec_reduce_burn) simp_all
  then show "map_of (replay [] (es @ e # es')) (tokenId e) = None"
    by (simp only: map_of_replay map_of.simps)
next
  assume d: "distinct (map orderKey (filter (inRange a b) tbl))"
  then show "map_of (getHolderMapByBlock tie tbl a b) = spec_buildLedger tbl a b"
    by (rule ledger_refines)
  fix rows
  assume "rangeAnswer tbl a b rows"
  with d show "rows = getEventsByBlockRange tie tbl a b"
    using rangeAnswer_query by (rule rangeAnswer_unique)
qed

theorem getHolderMapByBlock_replay_witness:
  "rangeAnswer
     [\<lparr>blockNumber = 160, logIndex = 0, transactionHash = ''tx3'',
        fromAddress = Bob, toAddress = zeroAddress, tokenId = 7\<rparr>,
      \<lparr>blockNumber = 150, logIndex = 1, transactionHash = ''tx2'',
        fromAddress = Alice, toAddress = Bob, tokenId = 7\<rparr>,
      \<lparr>blockNumber = 150, logIndex = 0, transactionHash = ''tx1'',
        fromAddress = zeroAddress, toAddress = Alice, tokenId = 7\<rparr>] 100 200
     [\<lparr>blockNumber = 150, logIndex = 0, transactionHash = ''tx1'',
        fromAddress = zeroAddress, toAddress = Alice, tokenId = 7\<rparr>,
      \<lparr>blockNumber = 150, logIndex = 1, transactionHash = ''tx2'',
        fromAddress = Alice, toAddress = Bob, tokenId = 7\<rparr>,
      \<lparr>blockNumber = 160, logIndex = 0, transactionHash = ''tx3'',
        fromAddress = Bob, toAddress = zeroAddress, tokenId = 7\<rparr>]
   \<and> distinct (map orderKey (filter (inRange 100 200)
     [\<lparr>blockNumber = 160, logIndex = 0, transactionHash = ''tx3'',
        fromAddress = Bob, toAddress = zeroAddress, tokenId = 7\<rparr>,
      \<lparr>blockNumber = 150, logIndex = 1, transactionHash = ''tx2'',
        fromAddress = Alice, toAddress = Bob, tokenId = 7\<rparr>,
      \<lparr>blockNumber = 150, logIndex = 0, transactionHash = ''tx1'',
        fromAddress = zeroAddress, toAddress = Alice, tokenId = 7\<rparr>]))
   \<and> getEventsByBlockRange (\<lambda>r. 0)
     [\<lparr>blockNumber = 160, logIndex = 0, transactionHash = ''tx3'',
        fromAddress = Bob, toAddress = zeroAddress, tokenId = 7\<rparr>,
      \<lparr>blockNumber = 150, logIndex = 1, transactionHash = ''tx2'',
        fromAddress = Alice, toAddress = Bob, tokenId = 7\<rparr>,
      \<lparr>blockNumber = 150, logIndex = 0, transactionHash = ''tx1'',
        fromAddress = zeroAddress, toAddress = Alice, tokenId = 7\<rparr>] 100 200
     = [\<lparr>blockNumber = 150, logIndex = 0, transactionHash = ''tx1'',
        fromAddress = zeroAddress, toAddress = Alice, tokenId = 7\<rparr>,
      \<lparr>blockNumber = 150, logIndex = 1, transactionHash = ''tx2'',
        fromAddress = Alice, toAddress = Bob, tokenId = 7\<rparr>,
      \<lparr>blockNumber = 160, logIndex = 0, transactionHash = ''tx3'',
        fromAddress = Bob, toAddress = zeroAddress, tokenId = 7\<rparr>]
   \<and> map_of (getHolderMapByBlock (\<lambda>r. 0)
     [\<lparr>blockNumber = 160, logIndex = 0, transactionHash = ''tx3'',
        fromAddress = Bob, toAddress = zeroAddress, tokenId = 7\<rparr>,
      \<lparr>blockNumber = 150, logIndex = 1, transactionHash = ''tx2'',
        fromAddress = Alice, toAddress = Bob, tokenId = 7\<rparr>,
      \<lparr>blockNumber = 150, logIndex = 0, transactionHash = ''tx1'',
        fromAddress = zeroAddress, toAddress = Alice, tokenId = 7\<rparr>] 100 200) 7 = None"
proof -
  let ?burn = "\<lparr>blockNumber = 160, logIndex = 0, transactionHash = ''tx3'',
        fromAddress = Bob, toAddress = zeroAddress, tokenId = 7\<rparr>"
  let ?move = "\<lparr>blockNumber = 150, logIndex = 1, transactionHash = ''tx2'',
        fromAddress = Alice, toAddress = Bob, tokenId = 7\<rparr>"
  let ?mint = "\<lparr>blockNumber = 150, logIndex = 0, transactionHash = ''tx1'',
        fromAddress = zeroAddress, toAddress = Alice, tokenId = 7\<rparr>"
  let ?tbl = "[?burn, ?move, ?mint]"
  note all = getHolderMapByBlock_replay [of ?tbl 100 200 "\<lambda>r. 0"]
  have answer: "rangeAnswer ?tbl 100 200 [?mint, ?move, ?burn]"
    by (simp add: rangeAnswer_def inRange_def orderKey_def)
  have noties: "distinct (map orderKey (filter (inRange 100 200) ?tbl))"
    by (simp add: inRange_def orderKey_def)
  note determined = all [THEN conjunct2, THEN conjunct2, THEN conjunct2, THEN conjunct2,
      THEN conjunct2, THEN conjunct2, THEN mp, OF noties]
  have read: "[?mint, ?move, ?burn] = getEventsByBlockRange (\<lambda>r. 0) ?tbl 100 200"
    by (rule determined [THEN conjunct1, rule_format, OF answer])
  note burnt = all [THEN conjunct2, THEN conjunct2, THEN conjunct2, THEN conjunct2,
      THEN conjunct2, THEN conjunct1, rule_format,
      where e = ?burn and es' = "[]" and es = "[?mint, ?move]"]
  have "map_of (replay [] ([?mint, ?move] @ ?burn # [])) (tokenId ?burn) = None"
    by (rule burnt) simp
  then have "map_of (replay [] (getEventsByBlockRange (\<lambda>r. 0) ?tbl 100 200)) 7 = None"
    by (simp flip: read)
  then have "map_of (getHolderMapByBlock (\<lambda>r. 0) ?tbl 100 200) 7 = None"
    by (simp only: all [THEN conjunct2, THEN conjunct1])
  with answer noties read [symmetric] show ?thesis by simp
qed

lemma sweep_loop_done:
  "\<not> currentBlock s \<le> m \<Longrightarrow> sweep_loop h m rs s = Finished s"
  by (subst sweep_loop.simps) simp

lemma sweep_loop_skip:
  "currentBlock s \<le> m \<Longrightarrow> h > currentBlock s \<Longrightarrow>
   sweep_loop h m rs s = sweep_loop h m rs (s\<lparr>currentBlock := h\<rparr>)"
  by (subst sweep_loop.simps) simp

lemma sweep_loop_wait:
  "currentBlock s \<le> m \<Longrightarrow> \<not> h > currentBlock s \<Longrightarrow>
   sweep_loop h m [] s =
     Awaiting (s\<lparr>queried := queried s @
       [(currentBlock s, min (currentBlock s + currentChunkSize s - 1) m)]\<rparr>)"
  by (subst sweep_loop.simps) (simp add: Let_def)

lemma sweep_loop_logs:
  "currentBlock s \<le> m \<Longrightarrow> \<not> h > currentBlock s \<Longrightarrow>
   sweep_loop h m (Logs events # rs) s =
     sweep_loop h m rs
       (setChunkSize (resizeAfterFetch (length events) (currentChunkSize s))
          (s\<lparr>queried := queried s @
               [(currentBlock s, min (currentBlock s + currentChunkSize s - 1) m)],
             cache := bulkInsertEvents (cache s) events\<rparr>)
        \<lparr>currentBlock := min (currentBlock s + currentChunkSize s - 1) m + 1\<rparr>)"
  by (subst sweep_loop.simps) (simp add: Let_def)

lemma sweep_loop_failure:
  "currentBlock s \<le> m \<Longrightarrow> \<not> h > currentBlock s \<Longrightarrow>
   sweep_loop h m (Failure msg # rs) s =
     sweep_loop h m rs
       (setChunkSize (resizeAfterError msg (currentChunkSize s))
          (s\<lparr>queried := queried s @
               [(currentBlock s, min (currentBlock s + currentChunkSize s - 1) m)]\<rparr>))"
  by (subst sweep_loop.simps) (simp add: Let_def)


text \<open>C4. What the chain does for an empty answer, in general and at the initial size.\<close>

theorem resizeAfterFetch_empty_window:
  "resizeAfterFetch 0 c =
     (if c < MAX_CHUNK_SIZE then Some (min MAX_CHUNK_SIZE (c * 5 div 4)) else None)
   \<and> resizeAfterFetch 0 50000 = Some 62500
   \<and> min MAX_CHUNK_SIZE (50000 * 2) = 100000"
  by (simp add: resizeAfterFetch_def MAX_CHUNK_SIZE_def MAX_LOGS_PER_QUERY_def
      MIN_LOGS_TO_INCREASE_CHUNK_def)

lemma resizeAfterFetch_bounds:
  assumes "MIN_CHUNK_SIZE \<le> c" "c \<le> MAX_CHUNK_SIZE" "resizeAfterFetch n c = Some c'"
  shows "MIN_CHUNK_SIZE \<le> c' \<and> c' \<le> MAX_CHUNK_SIZE"
  using assms
  by (auto simp: resizeAfterFetch_def MIN_CHUNK_SIZE_def MAX_CHUNK_SIZE_def split: if_splits)

lemma resizeAfterError_bounds:
  assumes "MIN_CHUNK_SIZE \<le> c" "c \<le> MAX_CHUNK_SIZE" "resizeAfterError msg c = Some c'"
  shows "MIN_CHUNK_SIZE \<le> c' \<and> c' \<le> MAX_CHUNK_SIZE"
  using assms
  by (auto simp: resizeAfterError_def MIN_CHUNK_SIZE_def MAX_CHUNK_SIZE_def split: if_splits)

lemma chunk_ok_setChunkSize:
  assumes "chunk_ok s" and "\<And>c'. r = Some c' \<Longrightarrow> MIN_CHUNK_SIZE \<le> c' \<and> c' \<le> MAX_CHUNK_SIZE"
  shows "chunk_ok (setChunkSize r s)"
  using assms by (cases r) (auto simp: chunk_ok_def setChunkSize_def)

lemma chunk_ok_sweep_loop:
  "chunk_ok s \<Longrightarrow> chunk_ok (state_of (sweep_loop h m rs s))"
proof (induction h m rs s rule: sweep_loop.induct)
  case (1 h m rs s)
  show ?case
  proof (cases "currentBlock s \<le> m")
    case False
    with "1.prems" show ?thesis by (simp add: sweep_loop_done)
  next
    case inside: True
    show ?thesis
    proof (cases "h > currentBlock s")
      case True
      have "chunk_ok (s\<lparr>currentBlock := h\<rparr>)"
        using "1.prems" by (simp add: chunk_ok_def)
      with "1.IH"(1)[OF inside True] inside True show ?thesis
        by (simp add: sweep_loop_skip)
    next
      case noskip: False
      define t where "t = min (currentBlock s + currentChunkSize s - 1) m"
      define s1 where "s1 = s\<lparr>queried := queried s @ [(currentBlock s, t)]\<rparr>"
      have ok1: "chunk_ok s1"
        using "1.prems" by (simp add: chunk_ok_def s1_def)
      show ?thesis
      proof (cases rs)
        case Nil
        with inside noskip ok1 show ?thesis
          by (simp add: sweep_loop_wait s1_def t_def)
      next
        case (Cons r rs')
        show ?thesis
        proof (cases r)
          case (Logs events)
          let ?s2 = "(setChunkSize (resizeAfterFetch (length events) (currentChunkSize s1))
                       (s1\<lparr>cache := bulkInsertEvents (cache s1) events\<rparr>))
                     \<lparr>currentBlock := t + 1\<rparr>"
          have "chunk_ok (s1\<lparr>cache := bulkInsertEvents (cache s1) events\<rparr>)"
            using ok1 by (simp add: chunk_ok_def)
          then have "chunk_ok (setChunkSize (resizeAfterFetch (length events) (currentChunkSize s1))
                       (s1\<lparr>cache := bulkInsertEvents (cache s1) events\<rparr>))"
            using ok1 by (intro chunk_ok_setChunkSize resizeAfterFetch_bounds) (auto simp: chunk_ok_def)
          then have "chunk_ok ?s2" by (simp add: chunk_ok_def)
          then have "chunk_ok (state_of (sweep_loop h m rs' ?s2))"
            using "1.IH"(2)[OF inside noskip t_def s1_def Cons Logs] by simp
          with inside noskip Cons Logs show ?thesis
            by (simp add: sweep_loop_logs s1_def t_def)
        next
          case (Failure msg)
          let ?s2 = "setChunkSize (resizeAfterError msg (currentChunkSize s1)) s1"
          have "chunk_ok ?s2"
            using ok1 by (intro chunk_ok_setChunkSize resizeAfterError_bounds) (auto simp: chunk_ok_def)
          then have "chunk_ok (state_of (sweep_loop h m rs' ?s2))"
            using "1.IH"(3)[OF inside noskip t_def s1_def Cons Failure] by simp
          with inside noskip Cons Failure show ?thesis
            by (simp add: sweep_loop_failure s1_def t_def)
        qed
      qed
    qed
  qed
qed


text \<open>
  C5. Whatever the remote source answers and however long the sweep runs, the chunk
  size it holds and every chunk size it ever changed to lie between \<open>100\<close> and \<open>150000\<close>;
  the sweep starts from \<open>50000\<close>.
\<close>

theorem chunk_size_bounds:
  "MIN_CHUNK_SIZE = 100 \<and> MAX_CHUNK_SIZE = 150000 \<and>
   (let s = state_of (getTransactionThroughBlock tbl target rs) in
    100 \<le> currentChunkSize s \<and> currentChunkSize s \<le> 150000
    \<and> (\<forall>c \<in> set (chunkLog s). 100 \<le> c \<and> c \<le> 150000))"
proof -
  let ?s0 = "\<lparr>currentBlock = startBlock, currentChunkSize = 50000, cache = tbl,
                queried = [], chunkLog = []\<rparr>"
  have ok0: "chunk_ok ?s0"
    by (simp add: chunk_ok_def MIN_CHUNK_SIZE_def MAX_CHUNK_SIZE_def)
  have "chunk_ok (state_of (getTransactionThroughBlock tbl target rs))"
    unfolding getTransactionThroughBlock_def ingest_def Let_def
    using ok0 chunk_ok_sweep_loop[OF ok0] by simp
  then show ?thesis
    by (simp add: chunk_ok_def MIN_CHUNK_SIZE_def MAX_CHUNK_SIZE_def Let_def)
qed


theorem chunk_size_bounds_witness:
  "chunkLog (state_of (getTransactionThroughBlock [] 12500000
      [Logs [], Failure ''query returned more than 10000 results''])) = [62500, 31250]
   \<and> currentChunkSize (state_of (getTransactionThroughBlock [] 12500000
      [Logs [], Failure ''query returned more than 10000 results''])) = 31250
   \<and> (100::int) \<le> 62500 \<and> (62500::int) \<le> 150000
   \<and> (100::int) \<le> 31250 \<and> (31250::int) \<le> 150000"
proof -
  have "chunkLog (state_of (getTransactionThroughBlock [] 12500000
      [Logs [], Failure ''query returned more than 10000 results''])) = [62500, 31250]"
    by code_simp
  moreover have "currentChunkSize (state_of (getTransactionThroughBlock [] 12500000
      [Logs [], Failure ''query returned more than 10000 results''])) = 31250"
    by code_simp
  ultimately show ?thesis
    using chunk_size_bounds [of "[]" 12500000
      "[Logs [], Failure ''query returned more than 10000 results'']"]
    by (simp add: Let_def)
qed

lemma highest_seeded: "GetHighestCachedBlock (seededStore alice bob) = 150"
  by (simp add: seededStore_def GetHighestCachedBlock_def falsy_or_def)

lemma reducer_seeded:
  "bob \<noteq> zeroAddress \<Longrightarrow> getHolderMapByBlock tie (seededStore alice bob) 100 200 = [(1, bob)]"
  by (simp add: getHolderMapByBlock_def getEventsByBlockRange_def seededStore_def
      inRange_def orderKey_def applyEvent_def Let_def)

lemma setChunkSize_fields [simp]:
  "currentBlock (setChunkSize r s) = currentBlock s"
  "queried (setChunkSize r s) = queried s"
  "cache (setChunkSize r s) = cache s"
  by (cases r; simp add: setChunkSize_def)+

lemma resizeAfterError_floor:
  "51 \<le> currentChunkSize s \<Longrightarrow> 51 \<le> currentChunkSize (setChunkSize (resizeAfterError msg (currentChunkSize s)) s)"
  by (auto simp: setChunkSize_def resizeAfterError_def MIN_CHUNK_SIZE_def max_def)

lemma window_150_200:
  assumes "currentBlock s = 150" "51 \<le> currentChunkSize s"
  shows "\<exists>s'. sweep_loop 150 200 (map Failure msgs @ Logs evs # rs) s = Finished s'
          \<and> queried s' = queried s @ replicate (Suc (length msgs)) (150, 200)"
  using assms
proof (induction msgs arbitrary: s)
  case Nil
  then have w: "min (currentBlock s + currentChunkSize s - 1) 200 = 200" by simp
  from Nil show ?case
    by (simp add: sweep_loop_logs sweep_loop_done w)
next
  case (Cons msg msgs)
  then have w: "min (currentBlock s + currentChunkSize s - 1) 200 = 200" by simp
  let ?s1 = "setChunkSize (resizeAfterError msg (currentChunkSize s))
          (s\<lparr>queried := queried s @ [(150, 200)]\<rparr>)"
  have c: "currentBlock ?s1 = 150" using Cons.prems by simp
  have "51 \<le> currentChunkSize (s\<lparr>queried := queried s @ [(150, 200)]\<rparr>)"
    using Cons.prems by simp
  then have k: "51 \<le> currentChunkSize ?s1"
    using resizeAfterError_floor[of "s\<lparr>queried := queried s @ [(150, 200)]\<rparr>" msg] by simp
  from Cons.IH[OF c k] obtain s' where
    "sweep_loop 150 200 (map Failure msgs @ Logs evs # rs) ?s1 = Finished s'"
    "queried s' = queried ?s1 @ replicate (Suc (length msgs)) (150, 200)"
    by blast
  with Cons.prems w show ?case
    by (simp add: sweep_loop_failure replicate_app_Cons_same)
qed


text \<open>
  C1, as the claim states it, fails: on the seeded store with target \<open>200\<close> the one
  window queried is \<open>[150, 200]\<close>, not \<open>[151, 200]\<close>.
\<close>

theorem ingest_window_counterexample:
  "queried (state_of (ingest 100 50000 (seededStore Alice Bob) 200 [Logs []])) = [(150, 200)]
   \<and> queried (state_of (ingest 100 50000 (seededStore Alice Bob) 200 [Logs []]))
       \<noteq> [(151, 200)]"
  by (simp add: ingest_def highest_seeded sweep_loop_skip sweep_loop_logs sweep_loop_done)

text \<open>
  C1, amended. For a store whose highest cached height is \<open>150\<close>, a target of \<open>200\<close>, a
  genesis height of at most \<open>150\<close> and a chunk size of at least \<open>51\<close>, the sweep resumes
  at the highest cached height itself: it queries the single window \<open>[150, 200]\<close>, once
  for each failed attempt and once for the fetch that succeeds, and then finishes. The
  seeded two-event store has highest height \<open>150\<close>, and the replay over \<open>[100, 200]\<close> on it
  yields the single entry that maps token \<open>1\<close> to Bob.
\<close>

theorem ingest_resumes_at_highest_cached:
  assumes "genesis \<le> 150" and "51 \<le> chunkSize0" and "GetHighestCachedBlock tbl = 150"
    and "bob \<noteq> zeroAddress"
  shows "(\<exists>s. ingest genesis chunkSize0 tbl 200 (map Failure msgs @ Logs evs # rs) = Finished s
            \<and> queried s = replicate (Suc (length msgs)) (150, 200))
         \<and> GetHighestCachedBlock (seededStore alice bob) = 150
         \<and> getHolderMapByBlock tie (seededStore alice bob) 100 200 = [(1, bob)]"
proof -
  let ?s0 = "\<lparr>currentBlock = genesis, currentChunkSize = chunkSize0, cache = tbl,
                queried = [], chunkLog = []\<rparr>"
  let ?rs = "map Failure msgs @ Logs evs # rs"
  have skip: "sweep_loop 150 200 ?rs ?s0 = sweep_loop 150 200 ?rs (?s0\<lparr>currentBlock := 150\<rparr>)"
  proof (cases "genesis < 150")
    case True
    then show ?thesis by (simp add: sweep_loop_skip)
  next
    case False
    with assms(1) have "genesis = 150" by simp
    then show ?thesis by simp
  qed
  obtain s' where "sweep_loop 150 200 ?rs (?s0\<lparr>currentBlock := 150\<rparr>) = Finished s'"
    "queried s' = queried (?s0\<lparr>currentBlock := 150\<rparr>) @ replicate (Suc (length msgs)) (150, 200)"
    using window_150_200[of "?s0\<lparr>currentBlock := 150\<rparr>" msgs evs rs] assms(2) by auto
  with skip assms(3) have "\<exists>s. ingest genesis chunkSize0 tbl 200 ?rs = Finished s
            \<and> queried s = replicate (Suc (length msgs)) (150, 200)"
    by (simp add: ingest_def Let_def)
  with assms(4) show ?thesis
    by (simp add: highest_seeded reducer_seeded)
qed


theorem ingest_resumes_at_highest_cached_witness:
  "(100::int) \<le> 150 \<and> (51::int) \<le> 50000
   \<and> GetHighestCachedBlock (seededStore Alice Bob) = 150 \<and> Bob \<noteq> zeroAddress
   \<and> (\<exists>s. ingest 100 50000 (seededStore Alice Bob) 200 [Logs []] = Finished s
          \<and> queried s = [(150, 200)])
   \<and> getHolderMapByBlock (\<lambda>r. 0) (seededStore Alice Bob) 100 200 = [(1, Bob)]"
proof -
  have b: "Bob \<noteq> zeroAddress" by (simp add: Bob_def zeroAddress_def)
  have h: "GetHighestCachedBlock (seededStore Alice Bob) = 150" by (rule highest_seeded)
  from ingest_resumes_at_highest_cached [of 100 50000 "seededStore Alice Bob" Bob "[]" "[]" "[]"
      Alice "\<lambda>r. 0"]
    h b
  show ?thesis by simp
qed

section \<open>Properties of the retry wrapper and of the aggregation\<close>

lemma retry_loop_unbounded_balance:
  "retry_loop \<infinity> n (map RpcError msgs @ Balance b # later) = Returned b"
  by (induction msgs arbitrary: n) (simp_all add: retry_loop.simps)

lemma retry_loop_unbounded_errors:
  "retry_loop \<infinity> n (map RpcError msgs) = Retrying (Suc (n + length msgs))"
  by (induction msgs arbitrary: n) (simp_all add: retry_loop.simps)

lemma retry_loop_unbounded_shape:
  "(\<exists>b. retry_loop \<infinity> n answers = Returned b) \<or> (\<exists>k. retry_loop \<infinity> n answers = Retrying k)"
proof (induction answers arbitrary: n)
  case Nil
  show ?case by (simp add: retry_loop.simps)
next
  case (Cons a answers)
  show ?case
  proof (cases a)
    case (Balance b)
    then show ?thesis by (simp add: retry_loop.simps)
  next
    case (RpcError msg)
    with Cons.IH [of "Suc n"] show ?thesis by (simp add: retry_loop.simps)
  qed
qed

lemma retry_loop_bounded_falls_back:
  "retry_loop (enat 2) 0 [RpcError ''timeout'', RpcError ''timeout'', Balance 5] = Fallback 0"
  by (simp add: retry_loop.simps)


text \<open>
  C8. With the bound \<^verbatim>\<open>Infinity\<close> the statements after the retry loop are never reached:
  whatever the provider answers, the wrapper either returns a fetched balance (the
  first one that arrives) or is still retrying; it never returns the zero of the
  fallback. (With a finite bound the fallback is reached, see
  \<open>retry_loop_bounded_falls_back\<close>.)
\<close>

theorem fetchBalanceWithRetry_no_fallback:
  "((\<exists>b. fetchBalanceWithRetry answers = Returned b)
      \<or> (\<exists>n. fetchBalanceWithRetry answers = Retrying n))
   \<and> (\<forall>z. fetchBalanceWithRetry answers \<noteq> Fallback z)
   \<and> fetchBalanceWithRetry (map RpcError msgs @ Balance b # later) = Returned b
   \<and> fetchBalanceWithRetry (map RpcError msgs) = Retrying (Suc (length msgs))"
proof -
  have shape: "(\<exists>b. fetchBalanceWithRetry answers = Returned b)
      \<or> (\<exists>n. fetchBalanceWithRetry answers = Retrying n)"
    unfolding fetchBalanceWithRetry_def by (rule retry_loop_unbounded_shape)
  then have "\<forall>z. fetchBalanceWithRetry answers \<noteq> Fallback z" by auto
  with shape show ?thesis
    by (simp add: fetchBalanceWithRetry_def retry_loop_unbounded_balance
        retry_loop_unbounded_errors)
qed


theorem fetchBalanceWithRetry_no_fallback_witness:
  "fetchBalanceWithRetry [RpcError ''timeout'', RpcError ''timeout'', Balance 5] = Returned 5
   \<and> fetchBalanceWithRetry [RpcError ''timeout'', RpcError ''timeout''] = Retrying 3"
  using fetchBalanceWithRetry_no_fallback [of "[]" "[''timeout'', ''timeout'']" 5 "[]"]
  by simp

lemma Promise_all_rejected: "Rejected \<in> set ps \<Longrightarrow> Promise_all ps = Rejected"
  by (induction ps) (auto split: promise.splits)

lemma Promise_all_not_rejected: "Rejected \<notin> set ps \<Longrightarrow> Promise_all ps \<noteq> Rejected"
  by (induction ps) (auto split: promise.splits)

lemma Promise_all_pending:
  "Rejected \<notin> set ps \<Longrightarrow> Pending \<in> set ps \<Longrightarrow> Promise_all ps = Pending"
  by (induction ps) (auto split: promise.splits dest: Promise_all_not_rejected)

lemma Promise_all_resolved: "Promise_all (map Resolved vs) = Resolved vs"
  by (induction vs) simp_all

lemma foldl_plus_sum_list: "foldl (+) a xs = a + sum_list (xs :: int list)"
  by (induction xs arbitrary: a) simp_all

lemma awaitBalances_rejected: "Rejected \<in> set balances \<Longrightarrow> awaitBalances balances = Rejected"
  by (simp add: awaitBalances_def Promise_all_rejected)

lemma ownerTask_never_rejects: "Rejected \<notin> set (map (\<lambda>w. limited (ownerTask w)) wrappers)"
  by (auto simp: limited_def ownerTask_def split: promise.splits)

lemma ownerTask_pending:
  "Pending \<in> set (map (\<lambda>w. limited (ownerTask w)) wrappers) \<longleftrightarrow> Pending \<in> set wrappers"
  by (induction wrappers) (auto simp: limited_def ownerTask_def split: promise.splits)

lemma ownerTask_settled:
  "Pending \<notin> set wrappers \<Longrightarrow>
   map (\<lambda>w. limited (ownerTask w)) wrappers = map Resolved (map balanceOr0 wrappers)"
  by (induction wrappers) (auto simp: limited_def ownerTask_def balanceOr0_def split: promise.splits)

lemma tasks_never_reject: "getWalletBalance_tasks wrappers \<noteq> Rejected"
proof (cases "Pending \<in> set wrappers")
  case True
  then have "Promise_all (map (\<lambda>w. limited (ownerTask w)) wrappers) = Pending"
    by (intro Promise_all_pending ownerTask_never_rejects) (simp only: ownerTask_pending)
  then show ?thesis by (simp add: getWalletBalance_tasks_def awaitBalances_def)
next
  case False
  then show ?thesis
    by (simp add: getWalletBalance_tasks_def awaitBalances_def ownerTask_settled
        Promise_all_resolved del: map_map)
qed


text \<open>
  C2, as the claim states it, fails: when the wrapper promise of one of two owners is
  rejected, the aggregation resolves with the balance of the other owner alone.
\<close>

theorem getWalletBalance_partial_total_counterexample:
  "Rejected \<in> set [Resolved 10, Rejected]
   \<and> getWalletBalance_tasks [Resolved 10, Rejected] = Resolved 10
   \<and> getWalletBalance_tasks [Resolved 10, Rejected] \<noteq> Rejected"
  by (simp add: getWalletBalance_tasks_def awaitBalances_def limited_def ownerTask_def)


text \<open>
  C2, amended. A failure that escapes the retry wrapper is caught by the handler of the
  owner's task, which puts a zero balance in its place: the aggregation never rejects
  for that reason, and once every wrapper has settled it resolves with the sum of the
  fetched balances, counting zero for each owner whose wrapper was rejected; while a
  wrapper has not settled the aggregation has not settled either. Only a rejected
  promise among those handed to the joint await makes the aggregation reject.
\<close>

theorem getWalletBalance_swallows_failures:
  "getWalletBalance_tasks wrappers \<noteq> Rejected
   \<and> (Pending \<notin> set wrappers \<longrightarrow>
        getWalletBalance_tasks wrappers = Resolved (sum_list (map balanceOr0 wrappers)))
   \<and> (Pending \<in> set wrappers \<longrightarrow> getWalletBalance_tasks wrappers = Pending)
   \<and> getWalletBalance provider walletAddress \<noteq> Rejected
   \<and> (Rejected \<in> set balances \<longrightarrow> awaitBalances balances = Rejected)"
proof (intro conjI impI)
  show "getWalletBalance_tasks wrappers \<noteq> Rejected" by (rule tasks_never_reject)
  show "getWalletBalance provider walletAddress \<noteq> Rejected"
    unfolding getWalletBalance_def by (rule tasks_never_reject)
next
  assume "Pending \<notin> set wrappers"
  then show "getWalletBalance_tasks wrappers = Resolved (sum_list (map balanceOr0 wrappers))"
    by (simp add: getWalletBalance_tasks_def awaitBalances_def ownerTask_settled
        Promise_all_resolved foldl_plus_sum_list del: map_map)
next
  assume "Pending \<in> set wrappers"
  then have "Promise_all (map (\<lambda>w. limited (ownerTask w)) wrappers) = Pending"
    by (intro Promise_all_pending ownerTask_never_rejects) (simp only: ownerTask_pending)
  then show "getWalletBalance_tasks wrappers = Pending"
    by (simp add: getWalletBalance_tasks_def awaitBalances_def)
next
  assume "Rejected \<in> set balances"
  then show "awaitBalances balances = Rejected" by (rule awaitBalances_rejected)
qed

theorem getWalletBalance_swallows_failures_witness:
  "Pending \<notin> set [Resolved 10, Rejected, Resolved (5::int)]
   \<and> getWalletBalance_tasks [Resolved 10, Rejected, Resolved 5] = Resolved 15
   \<and> Pending \<in> set [Resolved 10, Pending]
   \<and> getWalletBalance_tasks [Resolved 10, Pending] = Pending
   \<and> Rejected \<in> set [Resolved 10, Rejected]
   \<and> awaitBalances [Resolved 10, Rejected] = Rejected"
  using getWalletBalance_swallows_failures [of "[Resolved 10, Rejected, Resolved 5]" "\<lambda>a. []" "[]" "[Resolved 10, Rejected]"]
    getWalletBalance_swallows_failures [of "[Resolved 10, Pending]" "\<lambda>a. []" "[]" "[Resolved 10, Rejected]"]
  by (simp add: balanceOr0_def)


section \<open>Properties of the program\<close>

text \<open>
  C10. When the search finds no block, \<open>main\<close> prints that it could not find one and then
  reads \<^verbatim>\<open>block.number\<close> of \<^verbatim>\<open>null\<close>: the run ends with an uncaught \<^verbatim>\<open>TypeError\<close>, having
  queried no window, built no holder map, asked for no balance and printed no total.
\<close>

theorem main_null_block:
  assumes "findBlockByTimestamp (blockNumberNow env) (getBlock env) (argv2 env) = None"
  shows "main env = \<lparr>console = [CouldNotFind (argv2 env)], windows = [], ledger = None,
                     balanceQueries = [], total = None, ending = Uncaught TypeError\<rparr>"
  using assms by (simp add: main_def block_number_def)


theorem main_null_block_witness:
  "findBlockByTimestamp (blockNumberNow emptyChain) (getBlock emptyChain) (argv2 emptyChain)
     = None
   \<and> main emptyChain =
       \<lparr>console = [CouldNotFind (Some 1700000000)], windows = [], ledger = None,
        balanceQueries = [], total = None, ending = Uncaught TypeError\<rparr>
   \<and> findBlockByTimestamp (blockNumberNow youngChain) (getBlock youngChain) (argv2 youngChain)
     = None
   \<and> main youngChain =
       \<lparr>console = [CouldNotFind (Some 1600000000)], windows = [], ledger = None,
        balanceQueries = [], total = None, ending = Uncaught TypeError\<rparr>"
proof -
  have e: "findBlockByTimestamp (blockNumberNow emptyChain) (getBlock emptyChain)
      (argv2 emptyChain) = None"
    by (simp add: emptyChain_def findBlockByTimestamp_def search.simps)
  have y: "findBlockByTimestamp (blockNumberNow youngChain) (getBlock youngChain)
      (argv2 youngChain) = None"
    by (simp add: youngChain_def findBlockByTimestamp_def search.simps withinTolerance_def
        isBefore_def)
  have "argv2 emptyChain = Some 1700000000" "argv2 youngChain = Some 1600000000"
    by (simp_all add: emptyChain_def youngChain_def)
  with main_null_block [OF e] main_null_block [OF y] e y show ?thesis by simp
qed

text \<open>For comparison, a run that finds its block, ingests one window and completes.\<close>

lemma main_completes_example:
  "ending (main smallChain) = Completed \<and> total (main smallChain) = Some 15
   \<and> balanceQueries (main smallChain) = [Alice, Bob]"
  by code_simp


section \<open>Properties of the rate limiter\<close>

lemma dispatch_keeps:
  "interval (limiter (dispatch w)) = interval (limiter w)"
  "submitted (dispatch w) = submitted w"
  "clock (dispatch w) = clock w"
  by (simp_all add: dispatch_def Let_def split: list.splits)

lemma coherent_dispatch:
  assumes "coherent w"
  shows "coherent (dispatch w) \<and> served (dispatch w)"
proof (cases "timeoutId (limiter w)")
  case (Some h)
  with assms show ?thesis
    by (auto simp: dispatch_def coherent_def served_def)
next
  case None
  show ?thesis
  proof (cases "queue (limiter w)")
    case Nil
    with None assms show ?thesis
      by (simp add: dispatch_def coherent_def served_def)
  next
    case (Cons fn rest)
    show ?thesis
    proof (cases "interval (limiter w) \<le> clock w - lastDispatchTime (limiter w)")
      case True
      have d: "dispatch w =
          w\<lparr>limiter := (limiter w)\<lparr>queue := rest, lastDispatchTime := clock w\<rparr>,
            inflight := inflight w @ [fn], starts := starts w @ [(fn, clock w)]\<rparr>"
        using None Cons True by (simp add: dispatch_def Let_def)
      have "successively (\<lambda>a b. interval (limiter w) \<le> b - a) (map snd (starts w) @ [clock w])"
        using assms True
        by (cases "starts w = []")
           (auto simp: coherent_def successively_append_iff last_map)
      with assms Cons show ?thesis
        unfolding d by (simp add: coherent_def served_def)
    next
      case False
      have d: "dispatch w =
          w\<lparr>limiter := (limiter w)\<lparr>timeoutId := Some (nextHandle w)\<rparr>,
            timers := timers w @ [(nextHandle w,
               clock w + (interval (limiter w) - (clock w - lastDispatchTime (limiter w))))],
            nextHandle := Suc (nextHandle w)\<rparr>"
        using None Cons False by (simp add: dispatch_def Let_def)
      from assms show ?thesis
        unfolding d by (simp add: coherent_def served_def)
    qed
  qed
qed

lemma coherent_add: "coherent w \<Longrightarrow> coherent (add fn w) \<and> served (add fn w)"
  unfolding add_def by (rule coherent_dispatch) (simp add: coherent_def)

lemma coherent_settle:
  "coherent w \<Longrightarrow> fn \<in> set (inflight w) \<Longrightarrow> coherent (settle fn w) \<and> served (settle fn w)"
  unfolding settle_def by (rule coherent_dispatch) (simp add: coherent_def)

lemma coherent_fire: "coherent w \<Longrightarrow> coherent (fire h w) \<and> served (fire h w)"
  unfolding fire_def by (rule coherent_dispatch) (simp add: coherent_def)

lemma coherent_tick: "coherent w \<Longrightarrow> coherent (w\<lparr>clock := t\<rparr>)"
  by (simp add: coherent_def)

lemma served_tick: "served w \<Longrightarrow> served (w\<lparr>clock := t\<rparr>)"
  by (simp add: served_def)

lemma step_keeps:
  assumes "coherent w \<and> served w" and "step ev w = Some w'"
  shows "coherent w' \<and> served w'"
  using assms
  by (cases ev)
     (auto simp: step_def coherent_add coherent_settle coherent_fire coherent_tick served_tick
       split: if_splits)

lemma run_keeps:
  "coherent w \<and> served w \<Longrightarrow> run evs w = Some w' \<Longrightarrow> coherent w' \<and> served w'"
proof (induction evs arbitrary: w)
  case Nil
  then show ?case by simp
next
  case (Cons ev evs)
  from Cons.prems(2) obtain w1 where s: "step ev w = Some w1" and r: "run evs w1 = Some w'"
    by (auto split: option.splits)
  from step_keeps [OF Cons.prems(1) s] have "coherent w1 \<and> served w1" .
  from Cons.IH [OF this r] show ?case .
qed

lemma boot_keeps: "coherent (boot rps t0) \<and> served (boot rps t0)"
  by (simp add: boot_def new_RateLimiter_def coherent_def served_def)

lemma step_interval:
  "step ev w = Some w' \<Longrightarrow> interval (limiter w') = interval (limiter w)"
  by (cases ev) (auto simp: step_def add_def settle_def fire_def dispatch_keeps split: if_splits)

lemma step_submitted:
  "step ev w = Some w' \<Longrightarrow> submitted w' = submitted w @ added [ev]"
  by (cases ev) (auto simp: step_def add_def settle_def fire_def dispatch_keeps split: if_splits)

lemma added_Cons: "added (ev # evs) = added [ev] @ added evs"
  by (cases ev) simp_all

lemma run_interval:
  "run evs w = Some w' \<Longrightarrow> interval (limiter w') = interval (limiter w)"
proof (induction evs arbitrary: w)
  case Nil
  then show ?case by simp
next
  case (Cons ev evs)
  from Cons.prems obtain w1 where s: "step ev w = Some w1" and r: "run evs w1 = Some w'"
    by (auto split: option.splits)
  from Cons.IH [OF r] step_interval [OF s] show ?case by simp
qed

lemma run_submitted:
  "run evs w = Some w' \<Longrightarrow> submitted w' = submitted w @ added evs"
proof (induction evs arbitrary: w)
  case Nil
  then show ?case by simp
next
  case (Cons ev evs)
  from Cons.prems obtain w1 where s: "step ev w = Some w1" and r: "run evs w1 = Some w'"
    by (auto split: option.splits)
  from Cons.IH [OF r] step_submitted [OF s] show ?case
    by (subst added_Cons) simp
qed

lemma drain_settle: "inflight w = fn # rest \<Longrightarrow> drain w = drain (settle fn w)"
  by (subst drain.simps) simp

lemma drain_fire:
  "inflight w = [] \<Longrightarrow> timers w \<noteq> [] \<Longrightarrow>
   drain w = drain (fire (fst (arg_min_list snd (timers w)))
                      (w\<lparr>clock := max (clock w) (snd (arg_min_list snd (timers w)))\<rparr>))"
  by (subst drain.simps) (simp add: Let_def split: list.splits)

lemma drain_quiet: "inflight w = [] \<Longrightarrow> timers w = [] \<Longrightarrow> drain w = w"
  by (subst drain.simps) simp

lemma drain_keeps:
  "coherent w \<and> served w \<Longrightarrow>
   coherent (drain w) \<and> served (drain w) \<and> inflight (drain w) = [] \<and> timers (drain w) = []
   \<and> submitted (drain w) = submitted w
   \<and> interval (limiter (drain w)) = interval (limiter w)"
proof (induction w rule: drain.induct)
  case (1 w)
  show ?case
  proof (cases "inflight w")
    case (Cons fn rest)
    then have "fn \<in> set (inflight w)" by simp
    with "1.prems" have k: "coherent (settle fn w) \<and> served (settle fn w)"
      by (simp add: coherent_settle)
    have "submitted (settle fn w) = submitted w" "interval (limiter (settle fn w)) = interval (limiter w)"
      by (simp_all add: settle_def dispatch_keeps)
    with "1.IH"(2) [OF Cons k] Cons show ?thesis
      by (simp add: drain_settle)
  next
    case Nil
    show ?thesis
    proof (cases "timers w")
      case Nil2: Nil
      with Nil "1.prems" show ?thesis by (simp add: drain_quiet)
    next
      case (Cons x xs)
      define t where "t = arg_min_list snd (timers w)"
      let ?w1 = "fire (fst t) (w\<lparr>clock := max (clock w) (snd t)\<rparr>)"
      from "1.prems" have "coherent (w\<lparr>clock := max (clock w) (snd t)\<rparr>)"
        by (simp add: coherent_tick)
      then have k: "coherent ?w1 \<and> served ?w1" by (rule coherent_fire)
      have "submitted ?w1 = submitted w" "interval (limiter ?w1) = interval (limiter w)"
        by (simp_all add: fire_def dispatch_keeps)
      with "1.IH"(1) [OF Nil Cons t_def k] Nil Cons show ?thesis
        by (simp add: drain_fire t_def)
    qed
  qed
qed


text \<open>
  C7. Two timers are pending at once after two tasks are added and the first one
  settles before the timer armed for the second has fired: the completion handler
  clears \<open>timeoutId\<close> without cancelling that timer, and the dispatch that follows arms
  another one.
\<close>

theorem two_timers_pending:
  "map_option timers (run [Add (1::nat), Add 2, Tick 10, Settle 1] (boot 25 1000))
     = Some [(0, 1040), (1, 1040)]
   \<and> map_option (\<lambda>w. timeoutId (limiter w))
        (run [Add (1::nat), Add 2, Tick 10, Settle 1] (boot 25 1000)) = Some (Some 1)"
  by (simp add: step_def add_def settle_def dispatch_def boot_def new_RateLimiter_def Let_def)

text \<open>
  C3. For a limiter built with \<open>25\<close> requests per second the interval is \<open>40\<close> ms. In every
  state reached by any interleaving of \<^verbatim>\<open>add\<close> calls, clock ticks, task completions and
  timer firings, consecutive task starts are at least \<open>40\<close> ms apart and the tasks started
  so far are the first of those submitted, in submission order. From any such state, when
  tasks take negligible time and timers fire when due, the limiter comes to rest with
  every submitted task started, in submission order, still at least \<open>40\<close> ms apart, and
  with the promise of every one of them settled; nothing is left queued or in flight.
\<close>

theorem limiter_spacing_fifo_liveness:
  assumes "run evs (boot 25 t0) = Some w"
  shows "interval (limiter w) = 40
    \<and> successively (\<lambda>a b. 40 \<le> b - a) (map snd (starts w))
    \<and> prefix (map fst (starts w)) (added evs)
    \<and> map fst (starts (drain w)) = added evs
    \<and> mset (settled (drain w)) = mset (added evs)
    \<and> queue (limiter (drain w)) = [] \<and> inflight (drain w) = []
    \<and> successively (\<lambda>a b. 40 \<le> b - a) (map snd (starts (drain w)))"
proof -
  have i: "interval (limiter w) = 40"
    using run_interval [OF assms] by (simp add: boot_def new_RateLimiter_def)
  have s: "submitted w = added evs"
    using run_submitted [OF assms] by (simp add: boot_def)
  have k: "coherent w \<and> served w"
    using run_keeps [OF boot_keeps assms] .
  note d = drain_keeps [OF k]
  from d have q: "queue (limiter (drain w)) = []"
    by (auto simp: served_def)
  from k i s have "successively (\<lambda>a b. 40 \<le> b - a) (map snd (starts w))"
    "prefix (map fst (starts w)) (added evs)"
    by (auto simp: coherent_def prefix_def)
  moreover from d q i s have "map fst (starts (drain w)) = added evs"
    "mset (settled (drain w)) = mset (added evs)"
    "successively (\<lambda>a b. 40 \<le> b - a) (map snd (starts (drain w)))"
    by (auto simp: coherent_def)
  ultimately show ?thesis using i q d by simp
qed


theorem limiter_spacing_fifo_liveness_witness:
  "(\<exists>w. run [Add (1::nat), Add 2, Add 3] (boot 25 1000) = Some w
     \<and> starts w = [(1, 1000)]
     \<and> starts (drain w) = [(1, 1000), (2, 1040), (3, 1080)]
     \<and> mset (settled (drain w)) = mset [1, 2, 3]
     \<and> queue (limiter (drain w)) = [])"
proof -
  let ?w = "\<lparr>limiter = \<lparr>interval = 40, queue = [2, 3], lastDispatchTime = 1000,
                 timeoutId = Some 0\<rparr>,
     clock = 1000, timers = [(0, 1040)], nextHandle = 1, inflight = [1::nat],
     starts = [(1, 1000)], settled = [], submitted = [1, 2, 3]\<rparr>"
  have r: "run [Add (1::nat), Add 2, Add 3] (boot 25 1000) = Some ?w"
    by (simp add: step_def add_def dispatch_def boot_def new_RateLimiter_def Let_def)
  have d: "starts (drain ?w) = [(1, 1000), (2, 1040), (3, 1080)]"
    by code_simp
  from limiter_spacing_fifo_liveness [OF r] d
  have "starts ?w = [(1, 1000)]
     \<and> starts (drain ?w) = [(1, 1000), (2, 1040), (3, 1080)]
     \<and> mset (settled (drain ?w)) = mset [1, 2, 3]
     \<and> queue (limiter (drain ?w)) = []"
    by simp
  with r show ?thesis by blast
qed

end
